theory Spec2Isabelle
  imports Main "HOL-Library.Word"
begin

unbundle bit_operations_syntax

section \<open>The concurrent LRU cache (cache.h)\<close>

subsection \<open>Data model\<close>

text \<open>
  Member names end in an underscore in the source; here they end in \<open>_'\<close>, and the local
  variable \<^verbatim>\<open>size\<close> is \<open>sz\<close>.

  Pointers to list nodes. \<open>nullptr\<close> is the null pointer, \<open>NullNodePtr\<close> the poison value
  \<^verbatim>\<open>reinterpret_cast<ListNode*>(-1)\<close> that marks a node as not being in the list,
  \<open>Head\<close> and \<open>Tail\<close> are \<^verbatim>\<open>&head_\<close> and \<^verbatim>\<open>&tail_\<close>, and \<open>Node a\<close> is the
  address of a node obtained from \<^verbatim>\<open>std::make_shared\<close>.
\<close>

datatype ptr = nullptr | NullNodePtr | Head | Tail | Node nat

record 'k ListNode =
  prev_' :: ptr
  next_' :: ptr
  key_' :: 'k

text \<open>The constructors \<^verbatim>\<open>ListNode()\<close> and \<^verbatim>\<open>ListNode(key)\<close>. The key of a
  default-constructed node is the default value of \<^verbatim>\<open>TKey\<close>, which the model takes as
  a parameter.\<close>

definition ListNode :: "'k \<Rightarrow> 'k ListNode" where
  "ListNode key = \<lparr>prev_' = NullNodePtr, next_' = nullptr, key_' = key\<rparr>"

definition inList :: "'k ListNode \<Rightarrow> bool" where
  "inList n = (prev_' n \<noteq> NullNodePtr)"

record 'v Value =
  listNode_' :: ptr
  value_' :: 'v

text \<open>
  The cache: the node store (\<^verbatim>\<open>head_\<close> and \<^verbatim>\<open>tail_\<close> live at \<open>Head\<close> and \<open>Tail\<close>,
  heap nodes at \<open>Node a\<close>), the allocator's next free address, the hash map, the atomic
  counter and the capacity. The values of type \<^verbatim>\<open>int\<close> are integers here. The
  counter is incremented only by an insert that has read a value below the capacity, and
  the compare-and-swap writes a value that is at least the capacity, so neither can leave
  the range of \<^verbatim>\<open>int\<close>; the decrement in \<^verbatim>\<open>erase\<close> can, and wraps around
  (\<open>atomic_decrement\<close>).
  The store is total: an access through \<open>nullptr\<close> or \<open>NullNodePtr\<close>, undefined in
  C++, reads or writes a cell of its own; on a well-formed list (\<open>lru_list\<close> below) no
  operation makes such an access.
  The list mutex is free between the steps modelled here; the outcome of the one
  \<^verbatim>\<open>try_to_lock\<close> is an argument of \<open>LRUCache_find\<close>.
\<close>

record ('k, 'v) LRUCache =
  nodes :: "ptr \<Rightarrow> 'k ListNode"
  next_node :: nat
  hash_map_' :: "'k \<rightharpoonup> 'v Value"
  current_size_' :: int
  capacity_' :: int

text \<open>The accessor handed to \<^verbatim>\<open>find\<close>: the wrapped map accessor (the key whose read lock
  it holds, if any) and the copy of the value.\<close>

record ('k, 'v) ConstAccessor =
  constAccessor_' :: "'k option"
  value_copy_' :: 'v

subsection \<open>Private member functions\<close>

definition unlink :: "ptr \<Rightarrow> ('k, 'v) LRUCache \<Rightarrow> ('k, 'v) LRUCache" where
  "unlink node st =
     (let prev = prev_' (nodes st node);
          next = next_' (nodes st node);
          m1 = (nodes st)(prev := (nodes st prev)\<lparr>next_' := next\<rparr>);
          m2 = m1(next := (m1 next)\<lparr>prev_' := prev\<rparr>);
          m3 = m2(node := (m2 node)\<lparr>prev_' := NullNodePtr\<rparr>)
      in st\<lparr>nodes := m3\<rparr>)"

definition append_node :: "ptr \<Rightarrow> ('k, 'v) LRUCache \<Rightarrow> ('k, 'v) LRUCache" where
  "append_node node st =
     (let prevLatestNode = prev_' (nodes st Tail);
          m1 = (nodes st)(node := (nodes st node)\<lparr>next_' := Tail\<rparr>);
          m2 = m1(node := (m1 node)\<lparr>prev_' := prevLatestNode\<rparr>);
          m3 = m2(Tail := (m2 Tail)\<lparr>prev_' := node\<rparr>);
          m4 = m3(prevLatestNode := (m3 prevLatestNode)\<lparr>next_' := node\<rparr>)
      in st\<lparr>nodes := m4\<rparr>)"

definition popFront :: "('k, 'v) LRUCache \<Rightarrow> ('k, 'v) LRUCache" where
  "popFront st =
     (let candidate = next_' (nodes st Head) in
      if candidate = Tail then st
      else
        let st1 = unlink candidate st;
            k = key_' (nodes st1 candidate)
        in case hash_map_' st1 k of
             None \<Rightarrow> st1
           | Some v \<Rightarrow> st1\<lparr>hash_map_' := (hash_map_' st1)(k := None)\<rparr>)"

subsection \<open>Public member functions\<close>

text \<open>The constructor; \<open>dk\<close> is the default-constructed key held by the two sentinels.
  The \<^verbatim>\<open>bucketCount\<close> argument only sizes the hash map and is left out.\<close>

definition new_LRUCache :: "'k \<Rightarrow> int \<Rightarrow> ('k, 'v) LRUCache" where
  "new_LRUCache dk sz =
     \<lparr>nodes = (\<lambda>p. ListNode dk)
        (Head := \<lparr>prev_' = nullptr, next_' = Tail, key_' = dk\<rparr>,
         Tail := \<lparr>prev_' = Head, next_' = nullptr, key_' = dk\<rparr>),
      next_node = 0,
      hash_map_' = Map.empty,
      current_size_' = 0,
      capacity_' = sz\<rparr>"

definition LRUCache_size :: "('k, 'v) LRUCache \<Rightarrow> int" where
  "LRUCache_size st = current_size_' st"

definition LRUCache_capacity :: "('k, 'v) LRUCache \<Rightarrow> int" where
  "LRUCache_capacity st = capacity_' st"

text \<open>\<^verbatim>\<open>current_size_--\<close> on the \<^verbatim>\<open>std::atomic<int>\<close>: the new value of the counter.
  At the smallest \<^verbatim>\<open>int\<close> the subtraction wraps around to the largest.\<close>

definition atomic_decrement :: "int \<Rightarrow> int" where
  "atomic_decrement c = (if c = - 2147483648 then 2147483647 else c - 1)"

definition LRUCache_erase :: "'k \<Rightarrow> ('k, 'v) LRUCache \<Rightarrow> nat \<times> ('k, 'v) LRUCache" where
  "LRUCache_erase key st =
     (case hash_map_' st key of
        None \<Rightarrow> (0, st)
      | Some v \<Rightarrow>
          let found_node = listNode_' v;
              (marked, st1) =
                (if inList (nodes st found_node) then
                   (if inList (nodes st found_node) then
                      let st' = unlink found_node st
                      in (True, st'\<lparr>current_size_' := atomic_decrement (current_size_' st')\<rparr>)
                    else (False, st))
                 else (False, st));
              st2 = (if marked then st1\<lparr>hash_map_' := (hash_map_' st1)(key := None)\<rparr> else st1)
          in (1, st2))"

text \<open>\<open>got_lock\<close> is whether \<^verbatim>\<open>std::try_to_lock\<close> obtained the list mutex.\<close>

definition LRUCache_find ::
  "('k, 'v) ConstAccessor \<Rightarrow> 'k \<Rightarrow> bool \<Rightarrow> ('k, 'v) LRUCache
     \<Rightarrow> bool \<times> ('k, 'v) ConstAccessor \<times> ('k, 'v) LRUCache" where
  "LRUCache_find caccessor key got_lock st =
     (case hash_map_' st key of
        None \<Rightarrow> (False, caccessor\<lparr>constAccessor_' := None\<rparr>, st)
      | Some v \<Rightarrow>
          let ac1 = caccessor\<lparr>constAccessor_' := Some key\<rparr>;
              ac2 = ac1\<lparr>value_copy_' := value_' v\<rparr>;
              found_node = listNode_' v;
              ac3 = ac2\<lparr>constAccessor_' := None\<rparr>;
              st1 = (if got_lock then
                       (if inList (nodes st found_node)
                        then append_node found_node (unlink found_node st)
                        else st)
                     else st)
          in (True, ac3, st1))"

text \<open>\<^verbatim>\<open>insert\<close>, in the five stretches between which other threads may run.
  \<^verbatim>\<open>std::make_shared\<close> is taken to obtain its memory, at the next address never used
  before; the storage of a destroyed node is not handed out again.\<close>

definition make_shared :: "'k \<Rightarrow> ('k, 'v) LRUCache \<Rightarrow> ptr \<times> ('k, 'v) LRUCache" where
  "make_shared key st =
     (let node = Node (next_node st)
      in (node, st\<lparr>nodes := (nodes st)(node := ListNode key),
                   next_node := Suc (next_node st)\<rparr>))"

text \<open>Lines 422 to 431: allocate the node and try the map insertion.\<close>

definition insert_map ::
  "'k \<Rightarrow> 'v \<Rightarrow> ('k, 'v) LRUCache \<Rightarrow> ptr option \<times> ('k, 'v) LRUCache" where
  "insert_map key val st =
     (let (node, st1) = make_shared key st
      in case hash_map_' st1 key of
           Some old \<Rightarrow> (None, st1)
         | None \<Rightarrow>
             (Some node,
              st1\<lparr>hash_map_' := (hash_map_' st1)(key \<mapsto> \<lparr>listNode_' = node, value_' = val\<rparr>)\<rparr>))"

text \<open>Lines 433 to 438: snapshot the counter, evict before linking when full.\<close>

definition insert_evict :: "('k, 'v) LRUCache \<Rightarrow> (int \<times> bool) \<times> ('k, 'v) LRUCache" where
  "insert_evict st =
     (let sz = current_size_' st
      in if sz \<ge> capacity_' st then ((sz, True), popFront st) else ((sz, False), st))"

text \<open>Lines 440 to 444.\<close>

definition insert_link :: "ptr \<Rightarrow> ('k, 'v) LRUCache \<Rightarrow> ('k, 'v) LRUCache" where
  "insert_link node st = append_node node st"

text \<open>Lines 446 to 448: \<^verbatim>\<open>size = current_size_++\<close> stores the value the counter had
  before the increment.\<close>

definition insert_count ::
  "int \<times> bool \<Rightarrow> ('k, 'v) LRUCache \<Rightarrow> int \<times> ('k, 'v) LRUCache" where
  "insert_count sp st =
     (case sp of (sz, popped) \<Rightarrow>
        if \<not> popped then (current_size_' st, st\<lparr>current_size_' := current_size_' st + 1\<rparr>)
        else (sz, st))"

definition compare_exchange_strong ::
  "int \<Rightarrow> int \<Rightarrow> ('k, 'v) LRUCache \<Rightarrow> bool \<times> ('k, 'v) LRUCache" where
  "compare_exchange_strong expected desired st =
     (if current_size_' st = expected then (True, st\<lparr>current_size_' := desired\<rparr>)
      else (False, st))"

text \<open>Lines 450 to 454.\<close>

definition insert_correct :: "int \<Rightarrow> ('k, 'v) LRUCache \<Rightarrow> ('k, 'v) LRUCache" where
  "insert_correct sz st =
     (if sz > capacity_' st then
        (case compare_exchange_strong sz (sz - 1) st of
           (True, st1) \<Rightarrow> popFront st1
         | (False, st1) \<Rightarrow> st1)
      else st)"

definition LRUCache_insert ::
  "'k \<Rightarrow> 'v \<Rightarrow> ('k, 'v) LRUCache \<Rightarrow> bool \<times> ('k, 'v) LRUCache" where
  "LRUCache_insert key val st =
     (case insert_map key val st of
        (None, st1) \<Rightarrow> (False, st1)
      | (Some node, st1) \<Rightarrow>
          let (sp, st2) = insert_evict st1;
              st3 = insert_link node st2;
              (sz, st4) = insert_count sp st3;
              st5 = insert_correct sz st4
          in (True, st5))"

definition LRUCache_clear :: "('k, 'v) LRUCache \<Rightarrow> ('k, 'v) LRUCache" where
  "LRUCache_clear st =
     (let m1 = (nodes st)(Head := (nodes st Head)\<lparr>next_' := Tail\<rparr>);
          m2 = m1(Tail := (m1 Tail)\<lparr>prev_' := Head\<rparr>)
      in st\<lparr>hash_map_' := Map.empty, nodes := m2, current_size_' := 0\<rparr>)"

subsection \<open>The recency list as a HOL list\<close>

text \<open>\<open>links m ps\<close>: in the store \<open>m\<close> each pointer of \<open>ps\<close> is followed by the next
  one through \<^verbatim>\<open>next_\<close> and preceded by the one before through \<^verbatim>\<open>prev_\<close>.\<close>

fun links :: "(ptr \<Rightarrow> 'k ListNode) \<Rightarrow> ptr list \<Rightarrow> bool" where
  "links m (p # q # ps) = (next_' (m p) = q \<and> prev_' (m q) = p \<and> links m (q # ps))"
| "links m ps = True"

text \<open>\<open>lru_list st ns\<close>: the nodes between the sentinels are exactly \<open>ns\<close>, from the
  least recently used to the most recently used, all of them allocated heap nodes.\<close>

definition lru_list :: "('k, 'v) LRUCache \<Rightarrow> ptr list \<Rightarrow> bool" where
  "lru_list st ns \<longleftrightarrow>
     distinct ns \<and> (\<forall>n \<in> set ns. \<exists>a. n = Node a \<and> a < next_node st) \<and>
     links (nodes st) (Head # ns @ [Tail])"

text \<open>\<open>map_rel h kf S\<close>: the entries of the map \<open>h\<close> and the nodes in \<open>S\<close> correspond
  one to one, \<open>kf\<close> giving the key a node holds.\<close>

definition map_rel :: "('k \<rightharpoonup> 'v Value) \<Rightarrow> (ptr \<Rightarrow> 'k) \<Rightarrow> ptr set \<Rightarrow> bool" where
  "map_rel h kf S \<longleftrightarrow>
     (\<forall>k v. h k = Some v \<longrightarrow> listNode_' v \<in> S \<and> kf (listNode_' v) = k) \<and>
     (\<forall>n \<in> S. \<exists>v. h (kf n) = Some v \<and> listNode_' v = n)"

text \<open>The state of a cache no operation is running on: the map entries and the list nodes
  correspond one to one, and the counter is the length of the list, within the capacity.\<close>

definition cache_inv :: "('k, 'v) LRUCache \<Rightarrow> ptr list \<Rightarrow> bool" where
  "cache_inv st ns \<longleftrightarrow>
     lru_list st ns \<and>
     map_rel (hash_map_' st) (\<lambda>n. key_' (nodes st n)) (set ns) \<and>
     current_size_' st = int (length ns) \<and> current_size_' st \<le> capacity_' st"

text \<open>\<open>recency st ks\<close>: the cache is in such a state and its keys, from the least to the
  most recently used, are \<open>ks\<close>.\<close>

definition recency :: "('k, 'v) LRUCache \<Rightarrow> 'k list \<Rightarrow> bool" where
  "recency st ks \<longleftrightarrow> (\<exists>ns. cache_inv st ns \<and> map (\<lambda>n. key_' (nodes st n)) ns = ks)"

subsection \<open>The two list updates on the store\<close>

text \<open>The store \<^verbatim>\<open>unlink\<close> leaves when \<open>P\<close> and \<open>Q\<close> are the neighbours of \<open>n\<close>,
  and the store \<^verbatim>\<open>append\<close> leaves when \<open>P\<close> is the node before the tail sentinel.\<close>

definition unlink_store :: "(ptr \<Rightarrow> 'k ListNode) \<Rightarrow> ptr \<Rightarrow> ptr \<Rightarrow> ptr \<Rightarrow> (ptr \<Rightarrow> 'k ListNode)" where
  "unlink_store m P n Q =
     (let m1 = m(P := (m P)\<lparr>next_' := Q\<rparr>);
          m2 = m1(Q := (m1 Q)\<lparr>prev_' := P\<rparr>)
      in m2(n := (m2 n)\<lparr>prev_' := NullNodePtr\<rparr>))"

definition append_store :: "(ptr \<Rightarrow> 'k ListNode) \<Rightarrow> ptr \<Rightarrow> ptr \<Rightarrow> (ptr \<Rightarrow> 'k ListNode)" where
  "append_store m P n =
     (let m1 = m(n := (m n)\<lparr>next_' := Tail\<rparr>);
          m2 = m1(n := (m1 n)\<lparr>prev_' := P\<rparr>);
          m3 = m2(Tail := (m2 Tail)\<lparr>prev_' := n\<rparr>)
      in m3(P := (m3 P)\<lparr>next_' := n\<rparr>))"

subsection \<open>Sequences of operations\<close>

text \<open>A call of one of the four public operations by a single thread. \<^verbatim>\<open>find\<close> carries
  the caller's accessor and whether the try-lock obtained the list mutex.\<close>

datatype ('k, 'v) operation =
    Insert 'k 'v
  | Erase 'k
  | Find "('k, 'v) ConstAccessor" 'k bool
  | Clear

fun apply_op :: "('k, 'v) operation \<Rightarrow> ('k, 'v) LRUCache \<Rightarrow> ('k, 'v) LRUCache" where
  "apply_op (Insert key val) st = snd (LRUCache_insert key val st)"
| "apply_op (Erase key) st = snd (LRUCache_erase key st)"
| "apply_op (Find ac key got_lock) st = snd (snd (LRUCache_find ac key got_lock st))"
| "apply_op Clear st = LRUCache_clear st"

fun run :: "('k, 'v) operation list \<Rightarrow> ('k, 'v) LRUCache \<Rightarrow> ('k, 'v) LRUCache" where
  "run [] st = st"
| "run (x # xs) st = run xs (apply_op x st)"

text \<open>The keys the cache reports as present.\<close>

definition present :: "('k, 'v) LRUCache \<Rightarrow> ('k, 'v) ConstAccessor \<Rightarrow> bool \<Rightarrow> 'k set" where
  "present st ac got_lock = {k. fst (LRUCache_find ac k got_lock st)}"

subsection \<open>Concrete caches\<close>

definition no_accessor :: "(int, string) ConstAccessor" where
  "no_accessor = \<lparr>constAccessor_' = None, value_copy_' = ''''\<rparr>"

text \<open>Capacity 3 after \<^verbatim>\<open>insert(1,"a")\<close>, \<^verbatim>\<open>insert(2,"b")\<close>, \<^verbatim>\<open>insert(3,"c")\<close>.\<close>

definition abc_cache :: "(int, string) LRUCache" where
  "abc_cache = run [Insert 1 ''a'', Insert 2 ''b'', Insert 3 ''c''] (new_LRUCache 0 3)"

definition mixed_ops :: "(int, string) operation list" where
  "mixed_ops = [Clear, Insert 1 ''a'', Insert 2 ''b'', Find no_accessor 1 True,
       Insert 3 ''c'', Erase 1]"

text \<open>Capacity 3, a thread inside \<^verbatim>\<open>insert(1,"a")\<close> that has put the entry in the map
  (line 428) and has not yet appended the node (line 443).\<close>

definition half_inserted :: "(int, string) LRUCache" where
  "half_inserted = snd (insert_map 1 ''a'' (new_LRUCache 0 3))"

text \<open>Capacity 3, two threads: A runs \<^verbatim>\<open>insert(1,"a")\<close> and has put the entry in the
  map, as in \<open>half_inserted\<close>; B then runs \<^verbatim>\<open>erase(1)\<close> from its first to its last
  line; then A finishes its \<^verbatim>\<open>insert\<close>.
  \<open>erase_during_insert\<close> gives what B's \<^verbatim>\<open>erase\<close> returned and the cache once both
  calls have returned.\<close>

definition erase_during_insert :: "nat \<times> (int, string) LRUCache" where
  "erase_during_insert =
     (case insert_map 1 ''a'' (new_LRUCache 0 3) of
        (None, st1) \<Rightarrow> (0, st1)
      | (Some node, st1) \<Rightarrow>
          let (n, st2) = LRUCache_erase 1 st1;
              (sp, st3) = insert_evict st2;
              st4 = insert_link node st3;
              (sz, st5) = insert_count sp st4;
              st6 = insert_correct sz st5
          in (n, st6))"

text \<open>Capacity 1, two threads: A runs \<^verbatim>\<open>insert(1,"a")\<close> and B runs \<^verbatim>\<open>insert(2,"b")\<close>.
  Both put their entry in the map and take their snapshot of the counter (line 433)
  before either reaches line 447. \<open>two_inserts\<close> gives the value B's local
  \<^verbatim>\<open>size\<close> holds after line 447 and the cache once both calls have returned.\<close>

definition two_inserts :: "int \<times> (int, string) LRUCache" where
  "two_inserts =
     (case insert_map 1 ''a'' (new_LRUCache 0 1) of
        (None, st1) \<Rightarrow> (0, st1)
      | (Some nodeA, st1) \<Rightarrow>
     (case insert_map 2 ''b'' st1 of
        (None, st2) \<Rightarrow> (0, st2)
      | (Some nodeB, st2) \<Rightarrow>
          let (spA, st3) = insert_evict st2;
              (spB, st4) = insert_evict st3;
              st5 = insert_link nodeA st4;
              st6 = insert_link nodeB st5;
              (szA, st7) = insert_count spA st6;
              (szB, st8) = insert_count spB st7;
              st9 = insert_correct szA st8;
              st10 = insert_correct szB st9
          in (szB, st10)))"

definition overcommitted :: "(int, string) LRUCache" where
  "overcommitted = snd two_inserts"

text \<open>The scenario of the ordering property: the pairs \<open>kvs\<close> are inserted into a cache
  whose capacity is their number, the first key is looked up with the list mutex
  obtained, and one more pair is inserted.\<close>

definition lru_scenario ::
  "'k \<Rightarrow> ('k \<times> 'v) list \<Rightarrow> ('k, 'v) ConstAccessor \<Rightarrow> 'k \<Rightarrow> 'v \<Rightarrow> ('k, 'v) LRUCache" where
  "lru_scenario dk kvs ac knew vnew =
     run (map (\<lambda>(k, v). Insert k v) kvs @ [Find ac (fst (hd kvs)) True, Insert knew vnew])
       (new_LRUCache dk (int (length kvs)))"

section \<open>The intrusive hash table (intrusive.h)\<close>

subsection \<open>Data model\<close>

text \<open>\<^verbatim>\<open>std::size_t\<close> is a 64-bit unsigned integer; its arithmetic wraps around.\<close>

type_synonym size_t = "64 word"

text \<open>A pointer to a value is its address, or \<open>None\<close> for \<^verbatim>\<open>nullptr\<close>. The values
  belong to the caller; of each one the table uses the two fields of its
  \<^verbatim>\<open>HashTableNode\<close> base.\<close>

type_synonym value_ptr = "nat option"

record HashTableNode =
  htNext :: value_ptr
  htKeyHash :: size_t

type_synonym value_store = "nat \<Rightarrow> HashTableNode"

text \<open>\<open>table\<close> is \<open>None\<close> for \<^verbatim>\<open>nullptr\<close>, otherwise the array of bucket heads.\<close>

record IntrusiveHashTable =
  table :: "value_ptr list option"
  bucketCount :: size_t
  usedBuckets :: size_t
  allowDupKeys :: bool

datatype failure = bad_alloc | assertion_failed | division_by_zero | null_dereference

definition DefaultCapacity :: size_t where
  "DefaultCapacity = 2053"

definition new_IntrusiveHashTable :: "bool \<Rightarrow> IntrusiveHashTable" where
  "new_IntrusiveHashTable allowDuplicateKeys =
     \<lparr>table = None, bucketCount = 0, usedBuckets = 0, allowDupKeys = allowDuplicateKeys\<rparr>"

subsection \<open>Member functions\<close>

definition getHashTableKeyHash :: "HashTableNode \<Rightarrow> size_t" where
  "getHashTableKeyHash n = htKeyHash n"

definition isLinkedToHashTable :: "HashTableNode \<Rightarrow> bool" where
  "isLinkedToHashTable n = (htKeyHash n \<noteq> 0)"

definition isAllocated :: "IntrusiveHashTable \<Rightarrow> bool" where
  "isAllocated t = (table t \<noteq> None \<and> bucketCount t \<noteq> 0)"


definition getBucketCount :: "IntrusiveHashTable \<Rightarrow> size_t" where
  "getBucketCount t = bucketCount t"

text \<open>The loop of \<^verbatim>\<open>isPrime\<close>, from the counter \<open>k\<close> on. A loop that does not return
  has the value \<open>None\<close>. The divisors \<open>6 * k + 1\<close> and \<open>6 * k - 1\<close> are odd, also after a
  wrap-around, so no division by zero occurs.\<close>

partial_function (option) isPrime_loop :: "size_t \<Rightarrow> size_t \<Rightarrow> bool option" where
  "isPrime_loop x k =
     (if 36 * k * k - 12 * k < x then
        (if x mod (6 * k + 1) = 0 \<or> x mod (6 * k - 1) = 0 then Some False
         else isPrime_loop x (k + 1))
      else Some True)"

declare isPrime_loop.simps [code]

definition isPrime :: "size_t \<Rightarrow> bool option" where
  "isPrime x =
     (if (x AND 1 = 0 \<and> x \<noteq> 2) \<or> x < 2 \<or> (x mod 3 = 0 \<and> x \<noteq> 3) then Some False
      else isPrime_loop x 1)"

text \<open>The loop \<^verbatim>\<open>while (!isPrime(bucketCount)) ++bucketCount\<close>, returning the final
  \<^verbatim>\<open>bucketCount\<close>.\<close>

partial_function (option) allocate_loop :: "size_t \<Rightarrow> size_t option" where
  "allocate_loop bc =
     Option.bind (isPrime bc) (\<lambda>p. if p then Some bc else allocate_loop (bc + 1))"

declare allocate_loop.simps [code]

text \<open>\<^verbatim>\<open>allocate(sizeHint)\<close>. \<open>can_new n\<close> tells whether \<^verbatim>\<open>new ValueType*[n]()\<close> obtains
  the memory; when it throws, \<^verbatim>\<open>bucketCount\<close> has already been set.\<close>

definition allocate ::
  "(nat \<Rightarrow> bool) \<Rightarrow> size_t \<Rightarrow> IntrusiveHashTable \<Rightarrow> (failure + IntrusiveHashTable) option" where
  "allocate can_new sizeHint t =
     (if isAllocated t then Some (Inr t)
      else Option.bind (allocate_loop sizeHint) (\<lambda>bc.
        if can_new (unat bc)
        then Some (Inr (t\<lparr>bucketCount := bc, table := Some (replicate (unat bc) None)\<rparr>))
        else Some (Inl bad_alloc)))"

text \<open>\<^verbatim>\<open>allocate()\<close>.\<close>

definition allocate_default ::
  "(nat \<Rightarrow> bool) \<Rightarrow> IntrusiveHashTable \<Rightarrow> (failure + IntrusiveHashTable) option" where
  "allocate_default can_new t = allocate can_new DefaultCapacity t"

definition hashOf :: "('k \<Rightarrow> size_t) \<Rightarrow> 'k \<Rightarrow> failure + size_t" where
  "hashOf KeyHasher key =
     (let keyHash = KeyHasher key in if keyHash \<noteq> 0 then Inr keyHash else Inl assertion_failed)"

definition bucketOf :: "IntrusiveHashTable \<Rightarrow> size_t \<Rightarrow> failure + size_t" where
  "bucketOf t keyHash =
     (if bucketCount t = 0 then Inl division_by_zero
      else let bucket = keyHash mod bucketCount t
           in if bucket < bucketCount t then Inr bucket else Inl assertion_failed)"

text \<open>The read \<^verbatim>\<open>table[bucket]\<close>.\<close>

definition table_at :: "IntrusiveHashTable \<Rightarrow> size_t \<Rightarrow> failure + value_ptr" where
  "table_at t bucket =
     (case table t of
        None \<Rightarrow> Inl null_dereference
      | Some buckets \<Rightarrow>
          if unat bucket < length buckets then Inr (buckets ! unat bucket)
          else Inl null_dereference)"

text \<open>The scan of a chain for a node with the hash \<open>keyHash\<close>, as in \<^verbatim>\<open>find\<close> and in
  \<^verbatim>\<open>insert\<close>: the first such node, or \<^verbatim>\<open>nullptr\<close> at the end of the chain. On a cyclic
  chain without such a node the scan does not return.\<close>

partial_function (option) scan_chain :: "value_store \<Rightarrow> size_t \<Rightarrow> value_ptr \<Rightarrow> value_ptr option" where
  "scan_chain vs keyHash item =
     (case item of
        None \<Rightarrow> Some None
      | Some a \<Rightarrow>
          if keyHash = htKeyHash (vs a) then Some (Some a)
          else scan_chain vs keyHash (htNext (vs a)))"

declare scan_chain.simps [code]


text \<open>\<^verbatim>\<open>insert(key, value)\<close>: the outcome, the table and the value store.\<close>

definition IntrusiveHashTable_insert ::
  "('k \<Rightarrow> size_t) \<Rightarrow> (nat \<Rightarrow> bool) \<Rightarrow> value_store \<Rightarrow> IntrusiveHashTable \<Rightarrow> 'k \<Rightarrow> value_ptr
     \<Rightarrow> (failure + bool \<times> IntrusiveHashTable \<times> value_store) option" where
  "IntrusiveHashTable_insert KeyHasher can_new vs t key val =
     (case val of
        None \<Rightarrow> Some (Inl assertion_failed)
      | Some v \<Rightarrow>
          if isLinkedToHashTable (vs v) then Some (Inl assertion_failed)
          else Option.bind (allocate_default can_new t) (\<lambda>r.
            case r of
              Inl e \<Rightarrow> Some (Inl e)
            | Inr t1 \<Rightarrow>
               (case hashOf KeyHasher key of
                  Inl e \<Rightarrow> Some (Inl e)
                | Inr keyHash \<Rightarrow>
                   (case bucketOf t1 keyHash of
                      Inl e \<Rightarrow> Some (Inl e)
                    | Inr bucket \<Rightarrow>
                       (case table_at t1 bucket of
                          Inl e \<Rightarrow> Some (Inl e)
                        | Inr first \<Rightarrow>
                            let link = (\<lambda>u. Some (Inr (True,
                                  t1\<lparr>table := map_option (\<lambda>b. b[unat bucket := Some v]) (table t1),
                                     usedBuckets := usedBuckets t1 + 1\<rparr>,
                                  vs(v := \<lparr>htNext = first, htKeyHash = keyHash\<rparr>))))
                            in if first \<noteq> None \<and> \<not> allowDupKeys t1 then
                                 Option.bind (scan_chain vs keyHash first) (\<lambda>dup.
                                   if dup \<noteq> None then Some (Inr (False, t1, vs)) else link ())
                               else link ())))))"

subsection \<open>What the specification calls a prime, and a chain\<close>

text \<open>A prime number, in the usual sense.\<close>

definition prime_nat :: "nat \<Rightarrow> bool" where
  "prime_nat n \<longleftrightarrow> 1 < n \<and> (\<forall>d. d dvd n \<longrightarrow> d = 1 \<or> d = n)"

text \<open>What the loop of \<^verbatim>\<open>isPrime\<close> tests when nothing wraps around: no number
  \<open>6 * j + 1\<close> or \<open>6 * j - 1\<close> with \<open>(6 * j - 1)\<^sup>2 \<le> n\<close> divides \<open>n\<close>.\<close>

definition trial :: "nat \<Rightarrow> bool" where
  "trial n \<longleftrightarrow>
     (\<forall>j\<ge>1. (6 * j - 1)\<^sup>2 \<le> n \<longrightarrow> \<not> (6 * j + 1) dvd n \<and> \<not> (6 * j - 1) dvd n)"


subsection \<open>Concrete tables\<close>

text \<open>A hasher that returns an integer key as it is, an allocator that never fails, and
  values that are not linked.\<close>

definition id_hash :: "size_t \<Rightarrow> size_t" where
  "id_hash k = k"

definition always :: "nat \<Rightarrow> bool" where
  "always n = True"

definition unlinked_values :: value_store where
  "unlinked_values = (\<lambda>a. \<lparr>htNext = None, htKeyHash = 0\<rparr>)"

text \<open>A table of 11 buckets that allows duplicates, after \<^verbatim>\<open>insert(42, v1)\<close> and
  \<^verbatim>\<open>insert(53, v2)\<close>, \<open>v1\<close> and \<open>v2\<close> being the values at the addresses 1 and 2:
  both keys fall into bucket 9.\<close>

definition one_in_bucket :: IntrusiveHashTable where
  "one_in_bucket =
     \<lparr>table = Some ((replicate 11 None)[9 := Some 1]), bucketCount = 11, usedBuckets = 1,
      allowDupKeys = True\<rparr>"

definition one_value :: value_store where
  "one_value = unlinked_values(1 := \<lparr>htNext = None, htKeyHash = 42\<rparr>)"

definition two_in_bucket :: IntrusiveHashTable where
  "two_in_bucket =
     \<lparr>table = Some ((replicate 11 None)[9 := Some 2]), bucketCount = 11, usedBuckets = 2,
      allowDupKeys = True\<rparr>"

definition two_values :: value_store where
  "two_values = one_value(2 := \<lparr>htNext = Some 1, htKeyHash = 53\<rparr>)"

text \<open>A hasher under which the keys 42 and 106 collide, and the table of 11 buckets
  after \<^verbatim>\<open>insert(42, v1)\<close> with it.\<close>

definition low_hash :: "size_t \<Rightarrow> size_t" where
  "low_hash k = k mod 64 + 1"

definition low_in_bucket :: IntrusiveHashTable where
  "low_in_bucket =
     \<lparr>table = Some ((replicate 11 None)[10 := Some 1]), bucketCount = 11, usedBuckets = 1,
      allowDupKeys = False\<rparr>"

definition low_value :: value_store where
  "low_value = unlinked_values(1 := \<lparr>htNext = None, htKeyHash = 43\<rparr>)"

section \<open>Properties of the recency list\<close>


text \<open>Splitting a linked sequence, and updates of the store that keep it linked.\<close>

lemma links_app:
  "links m (xs @ p # q # ys) = (links m (xs @ [p]) \<and> next_' (m p) = q \<and> prev_' (m q) = p \<and> links m (q # ys))"
  by (induction m xs rule: links.induct) auto

lemma links_upd_other: "p \<notin> set ps \<Longrightarrow> links (m(p := x)) ps = links m ps"
  by (induction m ps rule: links.induct) auto

lemma links_upd_next_last:
  "p \<notin> set xs \<Longrightarrow> links (m(p := (m p)\<lparr>next_' := q\<rparr>)) (xs @ [p]) = links m (xs @ [p])"
  by (induction m xs rule: links.induct) auto

lemma links_upd_prev_first:
  "p \<notin> set xs \<Longrightarrow> links (m(p := (m p)\<lparr>prev_' := q\<rparr>)) (p # xs) = links m (p # xs)"
  by (cases xs) (auto simp: links_upd_other)


lemma links_unlink_store:
  assumes l: "links m (A @ P # n # Q # B)" and d: "distinct (A @ P # n # Q # B)"
  shows "links (unlink_store m P n Q) (A @ P # Q # B)"
proof -
  from l have a: "links m (A @ [P])" and b: "links m (Q # B)"
    by (simp_all add: links_app)
  define m1 where "m1 = m(P := (m P)\<lparr>next_' := Q\<rparr>)"
  define m2 where "m2 = m1(Q := (m1 Q)\<lparr>prev_' := P\<rparr>)"
  define m3 where "m3 = m2(n := (m2 n)\<lparr>prev_' := NullNodePtr\<rparr>)"
  have m3: "unlink_store m P n Q = m3"
    by (simp add: unlink_store_def m1_def m2_def m3_def Let_def)
  from d have nP: "P \<notin> set A" and nQ: "Q \<notin> set (A @ [P])" and nn: "n \<notin> set (A @ [P])"
    and QB: "Q \<notin> set B" and nB: "n \<notin> set (Q # B)" and PB: "P \<notin> set (Q # B)"
    by auto
  have "links m1 (A @ [P])" using a nP by (simp add: m1_def links_upd_next_last)
  then have "links m2 (A @ [P])" using nQ unfolding m2_def by (simp add: links_upd_other)
  then have 1: "links m3 (A @ [P])" using nn unfolding m3_def by (simp add: links_upd_other)
  have "links m1 (Q # B)" using b PB unfolding m1_def by (simp add: links_upd_other)
  then have "links m2 (Q # B)" using QB unfolding m2_def by (simp add: links_upd_prev_first)
  then have 2: "links m3 (Q # B)" using nB unfolding m3_def by (simp add: links_upd_other)
  have 3: "next_' (m3 P) = Q" "prev_' (m3 Q) = P"
    using d by (auto simp: m1_def m2_def m3_def)
  show ?thesis unfolding m3 using 1 2 3 by (simp add: links_app)
qed


lemma links_append_store:
  assumes l: "links m (A @ [P, Tail])" and d: "distinct (A @ [P, n, Tail])"
  shows "links (append_store m P n) (A @ [P, n, Tail])"
proof -
  from l have a: "links m (A @ [P])"
    by (simp add: links_app)
  define m1 where "m1 = m(n := (m n)\<lparr>next_' := Tail\<rparr>)"
  define m2 where "m2 = m1(n := (m1 n)\<lparr>prev_' := P\<rparr>)"
  define m3 where "m3 = m2(Tail := (m2 Tail)\<lparr>prev_' := n\<rparr>)"
  define m4 where "m4 = m3(P := (m3 P)\<lparr>next_' := n\<rparr>)"
  have m4: "append_store m P n = m4"
    by (simp add: append_store_def m1_def m2_def m3_def m4_def Let_def)
  from d have nP: "P \<notin> set A" and nT: "Tail \<notin> set (A @ [P])" and nn: "n \<notin> set (A @ [P])"
    by auto
  have "links m1 (A @ [P])" using a nn unfolding m1_def by (simp add: links_upd_other)
  then have "links m2 (A @ [P])" using nn unfolding m2_def by (simp add: links_upd_other)
  then have "links m3 (A @ [P])" using nT unfolding m3_def by (simp add: links_upd_other)
  then have 1: "links m4 (A @ [P])" using nP unfolding m4_def by (simp add: links_upd_next_last)
  have 2: "next_' (m4 P) = n" "prev_' (m4 n) = P" "next_' (m4 n) = Tail" "prev_' (m4 Tail) = n"
    using d by (auto simp: m1_def m2_def m3_def m4_def)
  show ?thesis unfolding m4 using 1 2 by (simp add: links_app)
qed

lemma nodes_unlink:
  "nodes (unlink n st) = unlink_store (nodes st) (prev_' (nodes st n)) n (next_' (nodes st n))"
  by (simp add: unlink_def unlink_store_def Let_def)

lemma nodes_append_node:
  "nodes (append_node n st) = append_store (nodes st) (prev_' (nodes st Tail)) n"
  by (simp add: append_node_def append_store_def Let_def)

lemma unlink_frame [simp]:
  "next_node (unlink n st) = next_node st" "hash_map_' (unlink n st) = hash_map_' st"
  "current_size_' (unlink n st) = current_size_' st" "capacity_' (unlink n st) = capacity_' st"
  by (simp_all add: unlink_def Let_def)

lemma append_node_frame [simp]:
  "next_node (append_node n st) = next_node st" "hash_map_' (append_node n st) = hash_map_' st"
  "current_size_' (append_node n st) = current_size_' st" "capacity_' (append_node n st) = capacity_' st"
  by (simp_all add: append_node_def Let_def)

lemma key_unlink_store [simp]: "key_' (unlink_store m P n Q p) = key_' (m p)"
  by (simp add: unlink_store_def Let_def)

lemma key_append_store [simp]: "key_' (append_store m P n p) = key_' (m p)"
  by (simp add: append_store_def Let_def)

lemma prev_unlink_store [simp]: "prev_' (unlink_store m P n Q n) = NullNodePtr"
  by (simp add: unlink_store_def Let_def)


lemma lru_list_frame [simp]:
  "lru_list (st\<lparr>hash_map_' := h\<rparr>) ns = lru_list st ns"
  "lru_list (st\<lparr>current_size_' := c\<rparr>) ns = lru_list st ns"
  by (simp_all add: lru_list_def)

lemma lru_list_distinct_full:
  "lru_list st ns \<Longrightarrow> distinct (Head # ns @ [Tail])"
  by (auto simp: lru_list_def)

lemma lru_list_split:
  assumes "lru_list st (xs @ n # ys)"
  obtains A P Q B where "Head # xs = A @ [P]" "ys @ [Tail] = Q # B"
    "prev_' (nodes st n) = P" "next_' (nodes st n) = Q"
    "links (nodes st) (A @ P # n # Q # B)" "distinct (A @ P # n # Q # B)"
proof -
  obtain A P where AP: "Head # xs = A @ [P]"
    by (metis append_butlast_last_id list.distinct(1))
  obtain Q B where QB: "ys @ [Tail] = Q # B"
    by (cases "ys @ [Tail]") auto
  have full: "Head # (xs @ n # ys) @ [Tail] = A @ P # n # Q # B"
    using AP QB by (metis append.assoc append_Cons append_Nil)
  from assms have l: "links (nodes st) (A @ P # n # Q # B)"
    unfolding lru_list_def full by simp
  from lru_list_distinct_full [OF assms] have d: "distinct (A @ P # n # Q # B)"
    unfolding full .
  from l have pn: "prev_' (nodes st n) = P" "next_' (nodes st n) = Q"
    by (simp_all add: links_app)
  show ?thesis using AP QB pn l d by (rule that)
qed

lemma lru_list_unlink:
  assumes "lru_list st (xs @ n # ys)"
  shows "lru_list (unlink n st) (xs @ ys)"
proof -
  from assms obtain A P Q B where AP: "Head # xs = A @ [P]" and QB: "ys @ [Tail] = Q # B"
    and pn: "prev_' (nodes st n) = P" "next_' (nodes st n) = Q"
    and l: "links (nodes st) (A @ P # n # Q # B)" and d: "distinct (A @ P # n # Q # B)"
    by (rule lru_list_split)
  have "links (unlink_store (nodes st) P n Q) (A @ P # Q # B)"
    using l d by (rule links_unlink_store)
  moreover have "A @ P # Q # B = Head # (xs @ ys) @ [Tail]"
    using AP QB by (metis append.assoc append_Cons append_Nil)
  ultimately have "links (nodes (unlink n st)) (Head # (xs @ ys) @ [Tail])"
    by (simp add: nodes_unlink pn)
  with assms show ?thesis
    by (auto simp: lru_list_def)
qed

lemma lru_list_inList:
  assumes "lru_list st ns" "n \<in> set ns"
  shows "inList (nodes st n)"
proof -
  from assms(2) obtain xs ys where ns: "ns = xs @ n # ys"
    by (auto simp: in_set_conv_decomp)
  from assms(1) [unfolded ns] obtain A P where AP: "Head # xs = A @ [P]"
    and pn: "prev_' (nodes st n) = P"
    by (rule lru_list_split)
  from AP have "P \<in> set (Head # xs)" by (metis in_set_conv_decomp)
  then have "P = Head \<or> P \<in> set ns" by (auto simp: ns)
  with assms(1) have "P \<noteq> NullNodePtr" by (auto simp: lru_list_def)
  then show ?thesis by (simp add: inList_def pn)
qed

lemma lru_list_append_node:
  assumes "lru_list st ns" "n = Node a" "a < next_node st" "n \<notin> set ns"
  shows "lru_list (append_node n st) (ns @ [n])"
proof -
  obtain A P where AP: "Head # ns = A @ [P]"
    by (metis append_butlast_last_id list.distinct(1))
  have full: "Head # ns @ [Tail] = A @ [P, Tail]"
    using AP by (metis append.assoc append_Cons append_Nil)
  from assms(1) have l: "links (nodes st) (A @ [P, Tail])"
    unfolding lru_list_def full by simp
  then have pT: "prev_' (nodes st Tail) = P"
    by (simp add: links_app)
  have "distinct (Head # ns @ [Tail])" using assms(1) by (rule lru_list_distinct_full)
  then have "distinct (A @ [P, Tail])" unfolding full .
  moreover have "n \<notin> set (A @ [P, Tail])"
    using assms(2,4) unfolding full [symmetric] by auto
  ultimately have d: "distinct (A @ [P, n, Tail])" by auto
  have "links (append_store (nodes st) P n) (A @ [P, n, Tail])"
    using l d by (rule links_append_store)
  moreover have "A @ [P, n, Tail] = Head # (ns @ [n]) @ [Tail]"
    using AP by (metis append.assoc append_Cons append_Nil)
  ultimately have "links (nodes (append_node n st)) (Head # (ns @ [n]) @ [Tail])"
    by (simp add: nodes_append_node pT)
  with assms show ?thesis
    by (auto simp: lru_list_def)
qed

lemma lru_list_head_next:
  "lru_list st ns \<Longrightarrow> next_' (nodes st Head) = hd (ns @ [Tail])"
  by (cases ns) (auto simp: lru_list_def)






text \<open>The correspondence between map entries and list nodes.\<close>

lemma map_relD1:
  "map_rel h kf S \<Longrightarrow> h k = Some v \<Longrightarrow> listNode_' v \<in> S \<and> kf (listNode_' v) = k"
  unfolding map_rel_def by blast

lemma map_relD2:
  "map_rel h kf S \<Longrightarrow> n \<in> S \<Longrightarrow> \<exists>v. h (kf n) = Some v \<and> listNode_' v = n"
  unfolding map_rel_def by blast

lemma map_relI:
  "(\<And>k v. h k = Some v \<Longrightarrow> listNode_' v \<in> S \<and> kf (listNode_' v) = k) \<Longrightarrow>
   (\<And>n. n \<in> S \<Longrightarrow> \<exists>v. h (kf n) = Some v \<and> listNode_' v = n) \<Longrightarrow> map_rel h kf S"
  unfolding map_rel_def by blast

lemma map_rel_empty: "map_rel Map.empty kf {}"
  by (simp add: map_rel_def)

lemma map_rel_dom: "map_rel h kf S \<Longrightarrow> dom h = kf ` S"
proof (intro set_eqI iffI)
  fix k assume m: "map_rel h kf S" and "k \<in> dom h"
  then obtain v where "h k = Some v" by blast
  with m have "listNode_' v \<in> S \<and> kf (listNode_' v) = k" by (rule map_relD1)
  then show "k \<in> kf ` S" by blast
next
  fix k assume m: "map_rel h kf S" and "k \<in> kf ` S"
  then obtain n where n: "n \<in> S" "k = kf n" by blast
  from map_relD2 [OF m n(1)] n(2) show "k \<in> dom h" by blast
qed

lemma map_rel_inj: "map_rel h kf S \<Longrightarrow> inj_on kf S"
proof (rule inj_onI)
  fix x y assume m: "map_rel h kf S" and xy: "x \<in> S" "y \<in> S" "kf x = kf y"
  from map_relD2 [OF m xy(1)] obtain v where v: "h (kf x) = Some v" "listNode_' v = x" by blast
  from map_relD2 [OF m xy(2)] obtain w where w: "h (kf y) = Some w" "listNode_' w = y" by blast
  from v w xy(3) show "x = y" by simp
qed

lemma map_rel_remove:
  assumes "map_rel h kf S" "n \<in> S"
  shows "map_rel (h(kf n := None)) kf (S - {n})"
proof (rule map_relI)
  fix k v assume "(h(kf n := None)) k = Some v"
  then have k: "k \<noteq> kf n" "h k = Some v" by (simp_all split: if_splits)
  from map_relD1 [OF assms(1) k(2)] k(1) 
  show "listNode_' v \<in> S - {n} \<and> kf (listNode_' v) = k" by blast
next
  fix m assume "m \<in> S - {n}"
  then have m: "m \<in> S" "m \<noteq> n" by simp_all
  have "inj_on kf S" using assms(1) by (rule map_rel_inj)
  with m assms(2) have "kf m \<noteq> kf n" unfolding inj_on_def by blast
  with map_relD2 [OF assms(1) m(1)]
  show "\<exists>v. (h(kf n := None)) (kf m) = Some v \<and> listNode_' v = m" by simp
qed

lemma map_rel_add:
  assumes "map_rel h kf S" "h k = None" "kf n = k"
  shows "map_rel (h(k \<mapsto> \<lparr>listNode_' = n, value_' = v\<rparr>)) kf (insert n S)"
proof (rule map_relI)
  fix k' w assume *: "(h(k \<mapsto> \<lparr>listNode_' = n, value_' = v\<rparr>)) k' = Some w"
  show "listNode_' w \<in> insert n S \<and> kf (listNode_' w) = k'"
  proof (cases "k' = k")
    case True
    with * have "w = \<lparr>listNode_' = n, value_' = v\<rparr>" by simp
    with True assms(3) show ?thesis by simp
  next
    case False
    with * have "h k' = Some w" by simp
    from map_relD1 [OF assms(1) this] show ?thesis by simp
  qed
next
  fix m assume m: "m \<in> insert n S"
  show "\<exists>w. (h(k \<mapsto> \<lparr>listNode_' = n, value_' = v\<rparr>)) (kf m) = Some w \<and> listNode_' w = m"
  proof (cases "m = n")
    case True
    with assms(3) show ?thesis by simp
  next
    case False
    with m have mS: "m \<in> S" by simp
    from map_relD2 [OF assms(1) mS] obtain w where w: "h (kf m) = Some w" "listNode_' w = m"
      by blast
    with assms(2) have "kf m \<noteq> k" by auto
    with w show ?thesis by simp
  qed
qed

lemma map_rel_cong_imp:
  assumes "map_rel h kf S" "\<And>n. n \<in> S \<Longrightarrow> kf' n = kf n"
  shows "map_rel h kf' S"
proof (rule map_relI)
  fix k v assume "h k = Some v"
  from map_relD1 [OF assms(1) this] assms(2)
  show "listNode_' v \<in> S \<and> kf' (listNode_' v) = k" by simp
next
  fix n assume n: "n \<in> S"
  from map_relD2 [OF assms(1) n] assms(2) [OF n]
  show "\<exists>v. h (kf' n) = Some v \<and> listNode_' v = n" by simp
qed





lemma key_nodes_unlink [simp]: "key_' (nodes (unlink n st) p) = key_' (nodes st p)"
  by (simp add: nodes_unlink)

lemma key_nodes_append_node [simp]: "key_' (nodes (append_node n st) p) = key_' (nodes st p)"
  by (simp add: nodes_append_node)

lemma not_inList_unlink [simp]: "\<not> inList (nodes (unlink n st) n)"
  by (simp add: nodes_unlink inList_def)

lemma lru_list_node: "lru_list st ns \<Longrightarrow> n \<in> set ns \<Longrightarrow> \<exists>a. n = Node a \<and> a < next_node st"
  by (simp add: lru_list_def)

lemma popFront_empty: "lru_list st [] \<Longrightarrow> popFront st = st"
  by (simp add: popFront_def lru_list_def)

lemma popFront_nonempty:
  assumes "lru_list st (c # ns)"
  shows "popFront st = (unlink c st)\<lparr>hash_map_' := (hash_map_' st)(key_' (nodes st c) := None)\<rparr>"
proof -
  from assms have c: "next_' (nodes st Head) = c" "c \<noteq> Tail"
    by (auto simp: lru_list_def)
  show ?thesis
  proof (cases "hash_map_' st (key_' (nodes st c))")
    case None
    then have "(hash_map_' st)(key_' (nodes st c) := None) = hash_map_' st" by auto
    moreover have "(unlink c st)\<lparr>hash_map_' := hash_map_' st\<rparr> = unlink c st"
      by (simp add: unlink_def Let_def)
    ultimately show ?thesis using c None by (simp add: popFront_def Let_def)
  next
    case (Some v)
    then show ?thesis using c by (simp add: popFront_def Let_def)
  qed
qed

lemma keys_remove1:
  assumes "inj_on kf (set (xs @ n # ys))" "distinct (xs @ n # ys)"
  shows "remove1 (kf n) (map kf (xs @ n # ys)) = map kf (xs @ ys)"
proof -
  have "kf n \<notin> set (map kf xs)"
  proof
    assume "kf n \<in> set (map kf xs)"
    then obtain x where x: "x \<in> set xs" "kf x = kf n" by auto
    with assms(1) have "x = n" by (auto simp: inj_on_def)
    with x(1) assms(2) show False by simp
  qed
  then show ?thesis by (simp add: remove1_append)
qed

lemma cache_inv_lookup:
  assumes "cache_inv st ns" "hash_map_' st key = Some v"
  obtains xs ys where "ns = xs @ listNode_' v # ys" "key_' (nodes st (listNode_' v)) = key"
    "remove1 key (map (\<lambda>n. key_' (nodes st n)) ns) = map (\<lambda>n. key_' (nodes st n)) (xs @ ys)"
    "key \<in> set (map (\<lambda>n. key_' (nodes st n)) ns)"
proof -
  let ?kf = "\<lambda>n. key_' (nodes st n)"
  from assms(1) have mr: "map_rel (hash_map_' st) ?kf (set ns)" and d: "distinct ns"
    by (simp_all add: cache_inv_def lru_list_def)
  from map_relD1 [OF mr assms(2)] have n: "listNode_' v \<in> set ns" and k: "?kf (listNode_' v) = key"
    by simp_all
  from n obtain xs ys where ns: "ns = xs @ listNode_' v # ys"
    by (auto simp: in_set_conv_decomp)
  have "remove1 (?kf (listNode_' v)) (map ?kf (xs @ listNode_' v # ys)) = map ?kf (xs @ ys)"
    using map_rel_inj [OF mr] d unfolding ns by (rule keys_remove1)
  then have r: "remove1 key (map ?kf ns) = map ?kf (xs @ ys)" using k ns by simp
  have "key \<in> set (map ?kf ns)" using n k by force
  with ns k r show ?thesis by (rule that)
qed

lemma cache_inv_absent:
  assumes "cache_inv st ns" "hash_map_' st key = None"
  shows "key \<notin> set (map (\<lambda>n. key_' (nodes st n)) ns)"
proof
  assume "key \<in> set (map (\<lambda>n. key_' (nodes st n)) ns)"
  then obtain n where n: "n \<in> set ns" "key_' (nodes st n) = key" by auto
  from assms(1) have mr: "map_rel (hash_map_' st) (\<lambda>n. key_' (nodes st n)) (set ns)"
    by (simp add: cache_inv_def)
  from map_relD2 [OF mr n(1)] n(2) assms(2) show False by simp
qed

lemma recency_props:
  assumes "recency st ks"
  shows "distinct ks" "dom (hash_map_' st) = set ks" "current_size_' st = int (length ks)"
    "int (length ks) \<le> capacity_' st"
proof -
  from assms obtain ns where inv: "cache_inv st ns" and ks: "map (\<lambda>n. key_' (nodes st n)) ns = ks"
    by (auto simp: recency_def)
  from inv have mr: "map_rel (hash_map_' st) (\<lambda>n. key_' (nodes st n)) (set ns)" and d: "distinct ns"
    by (simp_all add: cache_inv_def lru_list_def)
  show "distinct ks" using map_rel_inj [OF mr] d ks by (auto simp: distinct_map)
  show "dom (hash_map_' st) = set ks" using map_rel_dom [OF mr] ks by auto
  show "current_size_' st = int (length ks)" using inv ks by (auto simp: cache_inv_def)
  then show "int (length ks) \<le> capacity_' st" using inv by (simp add: cache_inv_def)
qed





text \<open>Each public operation takes a quiescent state to a quiescent state, and what it
  does to the recency order.\<close>

lemma recency_new:
  assumes "0 \<le> cap"
  shows "recency (new_LRUCache dk cap) []"
proof -
  have "cache_inv (new_LRUCache dk cap) []"
    using assms by (simp add: cache_inv_def lru_list_def new_LRUCache_def map_rel_empty)
  then show ?thesis by (simp add: recency_def)
qed

lemma recency_clear:
  assumes "recency st ks"
  shows "recency (LRUCache_clear st) []"
proof -
  from recency_props(4) [OF assms] have "0 \<le> capacity_' st" by simp
  then have "cache_inv (LRUCache_clear st) []"
    by (simp add: cache_inv_def lru_list_def LRUCache_clear_def map_rel_empty Let_def)
  then show ?thesis by (simp add: recency_def)
qed

lemma erase_absent: "hash_map_' st key = None \<Longrightarrow> LRUCache_erase key st = (0, st)"
  by (simp add: LRUCache_erase_def)

lemma atomic_decrement_nonneg: "0 \<le> c \<Longrightarrow> atomic_decrement c = c - 1"
  by (simp add: atomic_decrement_def)

lemma erase_linked:
  assumes "hash_map_' st key = Some v" "inList (nodes st (listNode_' v))"
  shows "LRUCache_erase key st =
    (1, (unlink (listNode_' v) st)\<lparr>current_size_' := atomic_decrement (current_size_' st),
          hash_map_' := (hash_map_' st)(key := None)\<rparr>)"
  using assms by (simp add: LRUCache_erase_def Let_def)

lemma erase_unlinked:
  assumes "hash_map_' st key = Some v" "\<not> inList (nodes st (listNode_' v))"
  shows "LRUCache_erase key st = (1, st)"
  using assms by (simp add: LRUCache_erase_def Let_def)

lemma recency_erase:
  assumes "recency st ks"
  shows "recency (snd (LRUCache_erase key st)) (remove1 key ks)"
proof (cases "hash_map_' st key")
  case None
  from recency_props(2) [OF assms] None have "key \<notin> set ks" by auto
  then show ?thesis using assms None by (simp add: erase_absent remove1_idem)
next
  case (Some v)
  let ?n = "listNode_' v"
  from assms obtain ns where inv: "cache_inv st ns" and ks: "map (\<lambda>n. key_' (nodes st n)) ns = ks"
    by (auto simp: recency_def)
  from inv Some obtain xs ys where ns: "ns = xs @ ?n # ys" and k: "key_' (nodes st ?n) = key"
    and r: "remove1 key (map (\<lambda>n. key_' (nodes st n)) ns) = map (\<lambda>n. key_' (nodes st n)) (xs @ ys)"
    by (rule cache_inv_lookup)
  from inv have ll: "lru_list st ns" and mr: "map_rel (hash_map_' st) (\<lambda>n. key_' (nodes st n)) (set ns)"
    and c: "current_size_' st = int (length ns)" "current_size_' st \<le> capacity_' st"
    by (simp_all add: cache_inv_def)
  have il: "inList (nodes st ?n)" using ll by (rule lru_list_inList) (simp add: ns)
  define st' where "st' = (unlink ?n st)\<lparr>current_size_' := atomic_decrement (current_size_' st),
          hash_map_' := (hash_map_' st)(key := None)\<rparr>"
  have e: "LRUCache_erase key st = (1, st')"
    unfolding st'_def using Some il by (rule erase_linked)
  have l': "lru_list st' (xs @ ys)"
    unfolding st'_def using ll [unfolded ns] by (simp add: lru_list_unlink)
  have "distinct ns" using ll by (simp add: lru_list_def)
  then have S: "set ns - {?n} = set (xs @ ys)" unfolding ns by auto
  have "map_rel ((hash_map_' st)(key_' (nodes st ?n) := None)) (\<lambda>n. key_' (nodes st n)) (set ns - {?n})"
    using mr by (rule map_rel_remove) (simp add: ns)
  then have m': "map_rel (hash_map_' st') (\<lambda>n. key_' (nodes st' n)) (set (xs @ ys))"
    unfolding st'_def using k S by simp
  have "atomic_decrement (current_size_' st) = current_size_' st - 1"
    unfolding c(1) by (rule atomic_decrement_nonneg) simp
  then have "cache_inv st' (xs @ ys)"
    unfolding cache_inv_def using l' m' c by (simp add: st'_def ns)
  moreover have "map (\<lambda>n. key_' (nodes st' n)) (xs @ ys) = remove1 key ks"
    using r ks by (simp add: st'_def)
  ultimately show ?thesis unfolding e recency_def by auto
qed

lemma find_absent:
  "hash_map_' st key = None \<Longrightarrow>
     LRUCache_find ac key b st = (False, ac\<lparr>constAccessor_' := None\<rparr>, st)"
  by (simp add: LRUCache_find_def)

lemma find_present:
  "hash_map_' st key = Some v \<Longrightarrow>
     LRUCache_find ac key b st =
       (True, ac\<lparr>constAccessor_' := None, value_copy_' := value_' v\<rparr>,
        if b \<and> inList (nodes st (listNode_' v))
        then append_node (listNode_' v) (unlink (listNode_' v) st) else st)"
  by (simp add: LRUCache_find_def Let_def)

lemma recency_find:
  assumes "recency st ks"
  shows "recency (snd (snd (LRUCache_find ac key b st)))
           (if b \<and> key \<in> set ks then remove1 key ks @ [key] else ks)"
proof (cases "hash_map_' st key")
  case None
  from recency_props(2) [OF assms] None have "key \<notin> set ks" by auto
  then show ?thesis using assms None by (simp add: find_absent)
next
  case (Some v)
  let ?n = "listNode_' v"
  from assms obtain ns where inv: "cache_inv st ns" and ks: "map (\<lambda>n. key_' (nodes st n)) ns = ks"
    by (auto simp: recency_def)
  from inv Some obtain xs ys where ns: "ns = xs @ ?n # ys" and k: "key_' (nodes st ?n) = key"
    and r: "remove1 key (map (\<lambda>n. key_' (nodes st n)) ns) = map (\<lambda>n. key_' (nodes st n)) (xs @ ys)"
    and kin: "key \<in> set (map (\<lambda>n. key_' (nodes st n)) ns)"
    by (rule cache_inv_lookup)
  from inv have ll: "lru_list st ns" and mr: "map_rel (hash_map_' st) (\<lambda>n. key_' (nodes st n)) (set ns)"
    and c: "current_size_' st = int (length ns)" "current_size_' st \<le> capacity_' st"
    by (simp_all add: cache_inv_def)
  have il: "inList (nodes st ?n)" using ll by (rule lru_list_inList) (simp add: ns)
  show ?thesis
  proof (cases b)
    case False
    then show ?thesis using assms Some by (simp add: find_present)
  next
    case True
    define st' where "st' = append_node ?n (unlink ?n st)"
    have f: "snd (snd (LRUCache_find ac key b st)) = st'"
      using Some il True by (simp add: find_present st'_def)
    have d: "distinct ns" using ll by (simp add: lru_list_def)
    from lru_list_node [OF ll, of ?n] obtain a where a: "?n = Node a" "a < next_node st"
      by (auto simp: ns)
    have "lru_list (unlink ?n st) (xs @ ys)"
      using ll [unfolded ns] by (rule lru_list_unlink)
    then have l': "lru_list st' ((xs @ ys) @ [?n])"
      unfolding st'_def using a(1) by (rule lru_list_append_node) (use a d ns in auto)
    have S: "set ((xs @ ys) @ [?n]) = set ns" unfolding ns by auto
    have m': "map_rel (hash_map_' st') (\<lambda>n. key_' (nodes st' n)) (set ((xs @ ys) @ [?n]))"
      unfolding S using mr by (simp add: st'_def)
    have "cache_inv st' ((xs @ ys) @ [?n])"
      unfolding cache_inv_def using l' m' c by (simp add: st'_def ns)
    moreover have "map (\<lambda>n. key_' (nodes st' n)) ((xs @ ys) @ [?n]) = remove1 key ks @ [key]"
      using r ks k by (simp add: st'_def)
    ultimately show ?thesis unfolding f recency_def using True kin ks by auto
  qed
qed





lemma popFront_frame [simp]:
  "current_size_' (popFront st) = current_size_' st" "capacity_' (popFront st) = capacity_' st"
  "next_node (popFront st) = next_node st"
  by (simp_all add: popFront_def Let_def split: option.splits)

lemma make_shared_simps [simp]:
  "fst (make_shared key st) = Node (next_node st)"
  "hash_map_' (snd (make_shared key st)) = hash_map_' st"
  "current_size_' (snd (make_shared key st)) = current_size_' st"
  "capacity_' (snd (make_shared key st)) = capacity_' st"
  "next_node (snd (make_shared key st)) = Suc (next_node st)"
  "nodes (snd (make_shared key st)) = (nodes st)(Node (next_node st) := ListNode key)"
  by (simp_all add: make_shared_def Let_def)

lemma insert_map_dup:
  "hash_map_' st key = Some old \<Longrightarrow> insert_map key val st = (None, snd (make_shared key st))"
  by (simp add: insert_map_def make_shared_def Let_def)

lemma insert_map_new:
  "hash_map_' st key = None \<Longrightarrow>
     insert_map key val st =
       (Some (Node (next_node st)),
        (snd (make_shared key st))\<lparr>hash_map_' :=
           (hash_map_' st)(key \<mapsto> \<lparr>listNode_' = Node (next_node st), value_' = val\<rparr>)\<rparr>)"
  by (simp add: insert_map_def make_shared_def Let_def)

lemma insert_map_new_simps [simp]:
  assumes "hash_map_' st key = None"
  shows "hash_map_' (snd (insert_map key val st)) =
     (hash_map_' st)(key \<mapsto> \<lparr>listNode_' = Node (next_node st), value_' = val\<rparr>)"
  "current_size_' (snd (insert_map key val st)) = current_size_' st"
  "capacity_' (snd (insert_map key val st)) = capacity_' st"
  "next_node (snd (insert_map key val st)) = Suc (next_node st)"
  "nodes (snd (insert_map key val st)) = (nodes st)(Node (next_node st) := ListNode key)"
  by (simp_all add: insert_map_new [OF assms])

lemma insert_dup:
  "hash_map_' st key = Some old \<Longrightarrow>
     LRUCache_insert key val st = (False, snd (make_shared key st))"
  by (simp add: LRUCache_insert_def insert_map_dup)

lemma insert_new_below:
  assumes "hash_map_' st key = None" "current_size_' st < capacity_' st"
  shows "LRUCache_insert key val st =
    (True, (append_node (Node (next_node st)) (snd (insert_map key val st)))
             \<lparr>current_size_' := current_size_' st + 1\<rparr>)"
  using assms
  by (simp add: LRUCache_insert_def insert_map_new insert_evict_def insert_link_def
      insert_count_def insert_correct_def Let_def)

lemma insert_new_full:
  assumes "hash_map_' st key = None" "capacity_' st \<le> current_size_' st"
  shows "LRUCache_insert key val st =
    (True, insert_correct (current_size_' st)
             (append_node (Node (next_node st)) (popFront (snd (insert_map key val st)))))"
  using assms
  by (simp add: LRUCache_insert_def insert_map_new insert_evict_def insert_link_def
      insert_count_def Let_def)

lemma fresh_not_in_list: "lru_list st ns \<Longrightarrow> Node (next_node st) \<notin> set ns"
  by (auto simp: lru_list_def)

lemma lru_list_alloc:
  assumes "lru_list st ns" "nodes st' = (nodes st)(Node (next_node st) := x)"
    "next_node st' = Suc (next_node st)"
  shows "lru_list st' ns"
proof -
  have "Node (next_node st) \<notin> set (Head # ns @ [Tail])"
    using assms(1) by (auto simp: lru_list_def)
  then have "links ((nodes st)(Node (next_node st) := x)) (Head # ns @ [Tail])
     = links (nodes st) (Head # ns @ [Tail])"
    by (rule links_upd_other)
  then show ?thesis using assms by (auto simp: lru_list_def)
qed

lemma map_rel_alloc:
  assumes "lru_list st ns" "map_rel h (\<lambda>n. key_' (nodes st n)) (set ns)"
    "nodes st' = (nodes st)(Node (next_node st) := x)"
  shows "map_rel h (\<lambda>n. key_' (nodes st' n)) (set ns)"
  using assms(2)
proof (rule map_rel_cong_imp)
  fix n assume "n \<in> set ns"
  with fresh_not_in_list [OF assms(1)] have "n \<noteq> Node (next_node st)" by auto
  then show "key_' (nodes st' n) = key_' (nodes st n)" by (simp add: assms(3))
qed

lemma keys_alloc:
  assumes "lru_list st ns" "nodes st' = (nodes st)(Node (next_node st) := x)"
  shows "map (\<lambda>n. key_' (nodes st' n)) ns = map (\<lambda>n. key_' (nodes st n)) ns"
proof -
  have "\<And>n. n \<in> set ns \<Longrightarrow> n \<noteq> Node (next_node st)"
    using fresh_not_in_list [OF assms(1)] by auto
  then show ?thesis by (simp add: assms(2))
qed

lemma cache_inv_make_shared:
  assumes "cache_inv st ns"
  shows "cache_inv (snd (make_shared key st)) ns"
proof -
  from assms have ll: "lru_list st ns" and mr: "map_rel (hash_map_' st) (\<lambda>n. key_' (nodes st n)) (set ns)"
    and c: "current_size_' st = int (length ns)" "current_size_' st \<le> capacity_' st"
    by (simp_all add: cache_inv_def)
  have "lru_list (snd (make_shared key st)) ns"
    using ll by (rule lru_list_alloc) simp_all
  moreover have "map_rel (hash_map_' st) (\<lambda>n. key_' (nodes (snd (make_shared key st)) n)) (set ns)"
    using ll mr by (rule map_rel_alloc) simp
  ultimately show ?thesis
    unfolding cache_inv_def using c by simp
qed





lemma key_ListNode [simp]: "key_' (ListNode key) = key"
  by (simp add: ListNode_def)

lemma recency_insert_dup:
  assumes "recency st ks" "hash_map_' st key = Some old"
  shows "recency (snd (LRUCache_insert key val st)) ks"
proof -
  from assms obtain ns where inv: "cache_inv st ns" and ks: "map (\<lambda>n. key_' (nodes st n)) ns = ks"
    by (auto simp: recency_def)
  from inv have ll: "lru_list st ns" by (simp add: cache_inv_def)
  have "cache_inv (snd (make_shared key st)) ns"
    using inv by (rule cache_inv_make_shared)
  moreover have "map (\<lambda>n. key_' (nodes (snd (make_shared key st)) n)) ns = ks"
    using keys_alloc [OF ll, of "snd (make_shared key st)"] ks by simp
  ultimately show ?thesis
    unfolding insert_dup [OF assms(2)] recency_def by auto
qed

lemma recency_insert_new:
  assumes "recency st ks" "0 < capacity_' st" "hash_map_' st key = None"
  shows "recency (snd (LRUCache_insert key val st))
           (if int (length ks) < capacity_' st then ks @ [key] else tl ks @ [key])"
proof -
  from assms obtain ns where inv: "cache_inv st ns" and ks: "map (\<lambda>n. key_' (nodes st n)) ns = ks"
    by (auto simp: recency_def)
  from inv have ll: "lru_list st ns" and mr: "map_rel (hash_map_' st) (\<lambda>n. key_' (nodes st n)) (set ns)"
    and c: "current_size_' st = int (length ns)" "current_size_' st \<le> capacity_' st"
    by (simp_all add: cache_inv_def)
  note None = assms(3)
  let ?node = "Node (next_node st)"
  define st1 where "st1 = snd (insert_map key val st)"
  have st1: "hash_map_' st1 = (hash_map_' st)(key \<mapsto> \<lparr>listNode_' = ?node, value_' = val\<rparr>)"
    "current_size_' st1 = current_size_' st" "capacity_' st1 = capacity_' st"
    "next_node st1 = Suc (next_node st)" "nodes st1 = (nodes st)(?node := ListNode key)"
    unfolding st1_def using None by simp_all
  have l1: "lru_list st1 ns" using ll st1(5,4) by (rule lru_list_alloc)
  have m0: "map_rel (hash_map_' st) (\<lambda>n. key_' (nodes st1 n)) (set ns)"
    using ll mr st1(5) by (rule map_rel_alloc)
  have kn: "key_' (nodes st1 ?node) = key" by (simp add: st1)
  have m1: "map_rel (hash_map_' st1) (\<lambda>n. key_' (nodes st1 n)) (insert ?node (set ns))"
    unfolding st1(1) using m0 None kn by (rule map_rel_add)
  have k1: "map (\<lambda>n. key_' (nodes st1 n)) ns = ks"
    using keys_alloc [OF ll st1(5)] ks by simp
  have fresh: "?node \<notin> set ns" using ll by (rule fresh_not_in_list)
  have lenks: "length ks = length ns" using ks by auto
  show ?thesis
  proof (cases "current_size_' st < capacity_' st")
    case True
    define st' where "st' = (append_node ?node st1)\<lparr>current_size_' := current_size_' st + 1\<rparr>"
    have r: "snd (LRUCache_insert key val st) = st'"
      using None True by (simp add: insert_new_below st'_def st1_def)
    have "lru_list (append_node ?node st1) (ns @ [?node])"
      using l1 refl by (rule lru_list_append_node) (simp_all add: st1 fresh)
    then have l': "lru_list st' (ns @ [?node])" by (simp add: st'_def)
    have m': "map_rel (hash_map_' st') (\<lambda>n. key_' (nodes st' n)) (set (ns @ [?node]))"
      using m1 by (simp add: st'_def)
    have "cache_inv st' (ns @ [?node])"
      unfolding cache_inv_def using l' m' c True by (simp add: st'_def st1)
    moreover have "map (\<lambda>n. key_' (nodes st' n)) (ns @ [?node]) = ks @ [key]"
      using k1 kn by (simp add: st'_def)
    ultimately show ?thesis unfolding r recency_def using True c lenks by auto
  next
    case False
    with c have full: "current_size_' st = capacity_' st" by simp
    with assms(2) c(1) obtain c0 ns' where ns: "ns = c0 # ns'" by (cases ns) auto
    define st2 where "st2 = (unlink c0 st1)\<lparr>hash_map_' := (hash_map_' st1)(key_' (nodes st1 c0) := None)\<rparr>"
    define st3 where "st3 = append_node ?node st2"
    have p: "popFront st1 = st2"
      unfolding st2_def using l1 [unfolded ns] by (rule popFront_nonempty)
    have "insert_correct (current_size_' st) st3 = st3"
      by (simp add: insert_correct_def full st3_def st2_def st1)
    then have r: "snd (LRUCache_insert key val st) = st3"
      using None False by (simp add: insert_new_full st3_def p [symmetric] st1_def)
    have "lru_list (unlink c0 st1) ([] @ ns')"
      using l1 [unfolded ns] by (intro lru_list_unlink) simp
    then have l2: "lru_list st2 ns'" by (simp add: st2_def)
    have d: "distinct ns" using ll by (simp add: lru_list_def)
    have "map_rel ((hash_map_' st1)(key_' (nodes st1 c0) := None)) (\<lambda>n. key_' (nodes st1 n))
             (insert ?node (set ns) - {c0})"
      using m1 by (rule map_rel_remove) (simp add: ns)
    moreover have "insert ?node (set ns) - {c0} = insert ?node (set ns')"
      using d fresh unfolding ns by auto
    ultimately have m2: "map_rel (hash_map_' st2) (\<lambda>n. key_' (nodes st2 n)) (insert ?node (set ns'))"
      by (simp add: st2_def)
    have l3: "lru_list st3 (ns' @ [?node])"
      unfolding st3_def using l2 refl
      by (rule lru_list_append_node) (use fresh in \<open>simp_all add: st2_def st1 ns\<close>)
    have m3: "map_rel (hash_map_' st3) (\<lambda>n. key_' (nodes st3 n)) (set (ns' @ [?node]))"
      using m2 by (simp add: st3_def)
    have "cache_inv st3 (ns' @ [?node])"
      unfolding cache_inv_def using l3 m3 c by (simp add: st3_def st2_def st1 ns)
    moreover have "map (\<lambda>n. key_' (nodes st3 n)) (ns' @ [?node]) = tl ks @ [key]"
      using k1 kn by (auto simp: st3_def st2_def ns)
    ultimately show ?thesis unfolding r recency_def using False c lenks by auto
  qed
qed

lemma recency_insert:
  assumes "recency st ks" "0 < capacity_' st"
  shows "recency (snd (LRUCache_insert key val st))
           (if key \<in> set ks then ks
            else if int (length ks) < capacity_' st then ks @ [key] else tl ks @ [key])"
proof (cases "hash_map_' st key")
  case None
  with recency_props(2) [OF assms(1)] have "key \<notin> set ks" by auto
  with recency_insert_new [OF assms None] show ?thesis by simp
next
  case (Some old)
  with recency_props(2) [OF assms(1)] have "key \<in> set ks" by auto
  with recency_insert_dup [OF assms(1) Some] show ?thesis by simp
qed

lemma insert_result: "fst (LRUCache_insert key val st) = (hash_map_' st key = None)"
  by (cases "hash_map_' st key")
     (simp_all add: LRUCache_insert_def insert_map_new insert_map_dup Let_def split: prod.splits)

lemma capacity_insert [simp]: "capacity_' (snd (LRUCache_insert key val st)) = capacity_' st"
  by (cases "hash_map_' st key")
     (simp_all add: LRUCache_insert_def insert_map_new insert_map_dup Let_def insert_evict_def
       insert_link_def insert_count_def insert_correct_def compare_exchange_strong_def split: prod.splits)

lemma capacity_erase [simp]: "capacity_' (snd (LRUCache_erase key st)) = capacity_' st"
  by (simp add: LRUCache_erase_def Let_def split: option.splits)

lemma capacity_find [simp]: "capacity_' (snd (snd (LRUCache_find ac key b st))) = capacity_' st"
  by (simp add: LRUCache_find_def Let_def split: option.splits)

lemma capacity_clear [simp]: "capacity_' (LRUCache_clear st) = capacity_' st"
  by (simp add: LRUCache_clear_def Let_def)





text \<open>A state has one recency order.\<close>

lemma links_unique:
  "links m (p # xs @ [Tail]) \<Longrightarrow> links m (p # ys @ [Tail]) \<Longrightarrow> Tail \<notin> set xs \<Longrightarrow> Tail \<notin> set ys
     \<Longrightarrow> xs = ys"
proof (induction xs arbitrary: p ys)
  case Nil
  then show ?case by (cases ys) auto
next
  case (Cons x xs)
  then show ?case by (cases ys) auto
qed

lemma lru_list_unique: "lru_list st ns \<Longrightarrow> lru_list st ns' \<Longrightarrow> ns = ns'"
  unfolding lru_list_def by (rule links_unique [of "nodes st" Head]) auto

lemma recency_unique: "recency st ks \<Longrightarrow> recency st ks' \<Longrightarrow> ks = ks'"
  unfolding recency_def cache_inv_def by (metis lru_list_unique)



section \<open>The claims about the cache\<close>

lemma recency_run:
  assumes "recency st ks" "0 < capacity_' st"
  shows "\<exists>ks'. recency (run ops st) ks' \<and> capacity_' (run ops st) = capacity_' st"
  using assms
proof (induction ops arbitrary: st ks)
  case Nil
  then show ?case by auto
next
  case (Cons x ops)
  have "\<exists>ks1. recency (apply_op x st) ks1 \<and> capacity_' (apply_op x st) = capacity_' st"
  proof (cases x)
    case (Insert key val)
    with recency_insert [OF Cons.prems] show ?thesis by auto
  next
    case (Erase key)
    with recency_erase [OF Cons.prems(1)] show ?thesis by auto
  next
    case (Find ac key b)
    with recency_find [OF Cons.prems(1)] show ?thesis by auto
  next
    case Clear
    with recency_clear [OF Cons.prems(1)] show ?thesis by auto
  qed
  then obtain ks1 where 1: "recency (apply_op x st) ks1" "capacity_' (apply_op x st) = capacity_' st"
    by blast
  with Cons.prems(2) have "0 < capacity_' (apply_op x st)" by simp
  from Cons.IH [OF 1(1) this] 1(2) show ?case by simp
qed

lemma present_eq_dom: "present st ac b = dom (hash_map_' st)"
  by (auto simp: present_def LRUCache_find_def Let_def split: option.splits)

lemma recency_size:
  assumes "recency st ks"
  shows "LRUCache_size st = int (card (present st ac b))" "LRUCache_size st \<le> LRUCache_capacity st"
proof -
  from recency_props [OF assms] have "card (set ks) = length ks"
    by (simp add: distinct_card)
  with recency_props [OF assms] show "LRUCache_size st = int (card (present st ac b))"
    by (simp add: LRUCache_size_def present_eq_dom)
  from recency_props [OF assms] show "LRUCache_size st \<le> LRUCache_capacity st"
    by (simp add: LRUCache_size_def LRUCache_capacity_def)
qed

text \<open>
  C3. A cache is built with a positive capacity and any sequence of \<^verbatim>\<open>insert\<close>,
  \<^verbatim>\<open>erase\<close>, \<^verbatim>\<open>find\<close> and \<^verbatim>\<open>clear\<close> calls runs on it, one after the other.
  Afterwards \<^verbatim>\<open>size()\<close> is the number of keys for which \<^verbatim>\<open>find\<close> returns true, and
  it is at most \<^verbatim>\<open>capacity()\<close>, which is still the capacity given at construction.
\<close>

theorem size_counts_present_keys:
  assumes "0 < cap"
  shows "LRUCache_size (run ops (new_LRUCache dk cap))
           = int (card (present (run ops (new_LRUCache dk cap)) ac got_lock)) \<and>
         LRUCache_size (run ops (new_LRUCache dk cap))
           \<le> LRUCache_capacity (run ops (new_LRUCache dk cap)) \<and>
         LRUCache_capacity (run ops (new_LRUCache dk cap)) = cap"
proof -
  have r0: "recency (new_LRUCache dk cap :: ('a, 'b) LRUCache) []"
    using assms by (intro recency_new) simp
  have c0: "0 < capacity_' (new_LRUCache dk cap :: ('a, 'b) LRUCache)"
    using assms by (simp add: new_LRUCache_def)
  from recency_run [OF r0 c0, of ops] obtain ks where
    ks: "recency (run ops (new_LRUCache dk cap :: ('a, 'b) LRUCache)) ks"
    and c: "capacity_' (run ops (new_LRUCache dk cap :: ('a, 'b) LRUCache)) = cap"
    by (auto simp: new_LRUCache_def)
  from recency_size [OF ks] c show ?thesis
    by (simp add: LRUCache_capacity_def)
qed

theorem size_counts_present_keys_witness:
  "LRUCache_size (run mixed_ops (new_LRUCache (0::int) 2))
     = int (card (present (run mixed_ops (new_LRUCache (0::int) 2)) no_accessor True)) \<and>
   LRUCache_size (run mixed_ops (new_LRUCache (0::int) 2)) = 1"
proof -
  have h: "(0::int) < 2" by simp
  have "LRUCache_size (run mixed_ops (new_LRUCache (0::int) 2)) = 1"
    by code_simp
  with size_counts_present_keys [OF h, of mixed_ops 0 no_accessor True]
  show ?thesis by simp
qed


lemma run_append: "run (xs @ ys) st = run ys (run xs st)"
  by (induction xs arbitrary: st) auto

lemma recency_inserts:
  assumes "recency st ks0" "distinct (map fst kvs)" "set (map fst kvs) \<inter> set ks0 = {}"
    "int (length ks0 + length kvs) \<le> capacity_' st"
  shows "recency (run (map (\<lambda>(k, v). Insert k v) kvs) st) (ks0 @ map fst kvs) \<and>
         capacity_' (run (map (\<lambda>(k, v). Insert k v) kvs) st) = capacity_' st"
  using assms
proof (induction kvs arbitrary: st ks0)
  case Nil
  then show ?case by simp
next
  case (Cons kv kvs)
  obtain k v where kv: "kv = (k, v)" by (cases kv)
  let ?st = "snd (LRUCache_insert k v st)"
  from Cons.prems have pos: "0 < capacity_' st" and k: "k \<notin> set ks0"
    and lt: "int (length ks0) < capacity_' st"
    by (auto simp: kv)
  from recency_insert [OF Cons.prems(1) pos, of k v] k lt
  have r: "recency ?st (ks0 @ [k])" by simp
  have "recency (run (map (\<lambda>(k, v). Insert k v) kvs) ?st) ((ks0 @ [k]) @ map fst kvs) \<and>
        capacity_' (run (map (\<lambda>(k, v). Insert k v) kvs) ?st) = capacity_' ?st"
    using r by (rule Cons.IH) (use Cons.prems in \<open>auto simp: kv\<close>)
  then show ?case by (simp add: kv)
qed

text \<open>
  C4. Distinct keys \<open>k1 .. kN\<close> (with \<open>N\<close> at least 2, so that there is a \<open>k2\<close>) are
  inserted into a cache of capacity \<open>N\<close>, \<open>k1\<close> is looked up by a \<^verbatim>\<open>find\<close> that obtains
  the list mutex, and a further key is inserted. Then the keys present are the old ones
  without \<open>k2\<close>, and the new one: \<open>k2\<close> is evicted, not \<open>k1\<close>. For the capacity 3 with
  \<open>(1,"a"), (2,"b"), (3,"c")\<close>, \<open>find(1)\<close> and \<open>(4,"d")\<close> this gives the keys \<open>1, 3, 4\<close>,
  the instance proved next.
\<close>

theorem find_promotes_before_eviction:
  assumes "distinct (map fst kvs)" "2 \<le> length kvs" "knew \<notin> fst ` set kvs"
  shows "present (lru_scenario dk kvs ac knew vnew) ac' got_lock
           = (fst ` set kvs - {fst (kvs ! 1)}) \<union> {knew} \<and>
         fst (kvs ! 0) \<in> present (lru_scenario dk kvs ac knew vnew) ac' got_lock \<and>
         fst (kvs ! 1) \<notin> present (lru_scenario dk kvs ac knew vnew) ac' got_lock"
proof -
  let ?ks = "map fst kvs"
  let ?init = "new_LRUCache dk (int (length kvs)) :: ('a, 'b) LRUCache"
  let ?st1 = "run (map (\<lambda>(k, v). Insert k v) kvs) ?init"
  let ?st2 = "snd (snd (LRUCache_find ac (fst (hd kvs)) True ?st1))"
  let ?st3 = "snd (LRUCache_insert knew vnew ?st2)"
  from assms(2) obtain kv1 kv2 rest where kvs: "kvs = kv1 # kv2 # rest"
    by (cases kvs; cases "tl kvs") auto
  have r0: "recency ?init []" by (rule recency_new) simp
  have "recency ?st1 ([] @ ?ks) \<and> capacity_' ?st1 = capacity_' ?init"
    using r0 assms(1) by (rule recency_inserts) (simp_all add: new_LRUCache_def)
  then have r1: "recency ?st1 ?ks" and c1: "capacity_' ?st1 = int (length kvs)"
    by (simp_all add: new_LRUCache_def)
  from recency_find [OF r1, of ac "fst (hd kvs)" True]
  have r2: "recency ?st2 (map fst (kv2 # rest) @ [fst kv1])"
    by (simp add: kvs)
  have c2: "capacity_' ?st2 = int (length kvs)" using c1 by simp
  have pos: "0 < capacity_' ?st2" unfolding c2 using assms(2) by linarith
  from recency_insert [OF r2 pos, of knew vnew] assms(3) c2
  have r3: "recency ?st3 (map fst rest @ [fst kv1, knew])"
    by (auto simp: kvs)
  have st3: "lru_scenario dk kvs ac knew vnew = ?st3"
    by (simp add: lru_scenario_def run_append)
  define a b R where "a = fst kv1" and "b = fst kv2" and "R = map fst rest"
  have d: "distinct (a # b # R)" using assms(1) by (simp add: kvs a_def b_def R_def)
  have n: "knew \<noteq> b" using assms(3) by (simp add: kvs b_def)
  have k: "fst ` set kvs = set (a # b # R)" "fst (kvs ! 1) = b" "fst (kvs ! 0) = a"
    by (simp_all add: kvs a_def b_def R_def)
  from recency_props(2) [OF r3]
  have "present ?st3 ac' got_lock = set (R @ [a, knew])"
    by (simp add: present_eq_dom a_def R_def)
  also have "\<dots> = (set (a # b # R) - {b}) \<union> {knew}"
    using d by auto
  finally have p: "present (lru_scenario dk kvs ac knew vnew) ac' got_lock
           = (set (a # b # R) - {b}) \<union> {knew}"
    unfolding st3 .
  have "a \<in> (set (a # b # R) - {b}) \<union> {knew}"
    using d by simp
  moreover have "b \<notin> (set (a # b # R) - {b}) \<union> {knew}"
    using n by simp
  ultimately show ?thesis unfolding p k by simp
qed

theorem find_promotes_before_eviction_witness:
  "present (lru_scenario (0::int) [(1, ''a''), (2, ''b''), (3, ''c'')] no_accessor 4 ''d'')
      no_accessor True = {1, 3, 4} \<and>
   2 \<notin> present (lru_scenario (0::int) [(1, ''a''), (2, ''b''), (3, ''c'')] no_accessor 4 ''d'')
      no_accessor True"
proof -
  have h1: "distinct (map fst [(1::int, ''a''), (2, ''b''), (3, ''c'')])" by simp
  have h2: "2 \<le> length [(1::int, ''a''), (2, ''b''), (3, ''c'')]" by simp
  have h3: "(4::int) \<notin> fst ` set [(1::int, ''a''), (2, ''b''), (3, ''c'')]" by simp
  have e: "fst ` set [(1::int, ''a''), (2, ''b''), (3, ''c'')] - {fst ([(1::int, ''a''), (2, ''b''), (3, ''c'')] ! 1)} \<union> {4}
      = {1, 3, 4}"
    by auto
  from find_promotes_before_eviction [OF h1 h2 h3, of 0 no_accessor "''d''" no_accessor True]
  show ?thesis unfolding e by simp
qed



text \<open>
  C1. \<^verbatim>\<open>erase\<close> does not erase the key from the map whatever the list step did: the
  erasure is skipped unless the list step unlinked the node, and 1 is returned all the
  same. In \<open>half_inserted\<close> a thread A is inside \<^verbatim>\<open>insert(1,"a")\<close>, the entry is in the
  map and its node is not yet linked. A thread B that now runs \<^verbatim>\<open>erase(1)\<close> gets 1 and
  leaves the cache exactly as it was, so its following \<^verbatim>\<open>find(1)\<close> returns true; and
  when A has finished, key 1 is still found, with its value, and \<^verbatim>\<open>size()\<close> is 1.
\<close>

theorem erase_unlinked_keeps_key:
  "hash_map_' half_inserted 1 = Some \<lparr>listNode_' = Node 0, value_' = ''a''\<rparr> \<and>
   \<not> inList (nodes half_inserted (Node 0)) \<and>
   LRUCache_erase 1 half_inserted = (1, half_inserted) \<and>
   fst (LRUCache_find no_accessor 1 True (snd (LRUCache_erase 1 half_inserted))) \<and>
   fst erase_during_insert = 1 \<and>
   fst (LRUCache_find no_accessor 1 True (snd erase_during_insert)) \<and>
   value_copy_' (fst (snd (LRUCache_find no_accessor 1 True (snd erase_during_insert)))) = ''a'' \<and>
   LRUCache_size (snd erase_during_insert) = 1"
proof -
  have a: "hash_map_' half_inserted 1 = Some \<lparr>listNode_' = Node 0, value_' = ''a''\<rparr>"
    by code_simp
  have b: "\<not> inList (nodes half_inserted (Node 0))" by code_simp
  have c: "LRUCache_erase 1 half_inserted = (1, half_inserted)"
    using a by (rule erase_unlinked) (simp add: b)
  have d: "fst (LRUCache_find no_accessor 1 True half_inserted)"
    using a by (simp add: find_present)
  have e: "fst erase_during_insert = 1" by code_simp
  have f: "fst (LRUCache_find no_accessor 1 True (snd erase_during_insert))" by code_simp
  have g: "value_copy_' (fst (snd (LRUCache_find no_accessor 1 True (snd erase_during_insert))))
      = ''a''"
    by code_simp
  have h: "LRUCache_size (snd erase_during_insert) = 1" by code_simp
  from a b c d e f g h show ?thesis by simp
qed

text \<open>
  C5. \<^verbatim>\<open>find(accessor, key)\<close> returns true exactly when the key is in the map; on success
  the accessor holds a copy of the stored value; and when the try-lock does not obtain the
  list mutex, it still returns true with that copy and leaves the cache, and so the
  recency list, as it was.
\<close>

theorem find_returns_copy:
  "fst (LRUCache_find ac key got_lock st) = (key \<in> dom (hash_map_' st)) \<and>
   (\<forall>v. hash_map_' st key = Some v \<longrightarrow>
      value_copy_' (fst (snd (LRUCache_find ac key got_lock st))) = value_' v) \<and>
   (\<forall>v. hash_map_' st key = Some v \<longrightarrow>
      LRUCache_find ac key False st
        = (True, ac\<lparr>constAccessor_' := None, value_copy_' := value_' v\<rparr>, st))"
  by (cases "hash_map_' st key") (auto simp: find_absent find_present)

theorem find_returns_copy_witness:
  "fst (LRUCache_find no_accessor 2 True abc_cache) \<and>
   value_copy_' (fst (snd (LRUCache_find no_accessor 2 True abc_cache))) = ''b'' \<and>
   LRUCache_find no_accessor 2 False abc_cache
     = (True, no_accessor\<lparr>constAccessor_' := None, value_copy_' := ''b''\<rparr>, abc_cache) \<and>
   \<not> fst (LRUCache_find no_accessor 5 True abc_cache)"
proof -
  have a: "hash_map_' abc_cache 5 = None" by code_simp
  have b: "hash_map_' abc_cache 2 = Some \<lparr>listNode_' = Node 1, value_' = ''b''\<rparr>" by code_simp
  from find_returns_copy [of no_accessor 2 True abc_cache] b
  have 1: "fst (LRUCache_find no_accessor 2 True abc_cache) \<and>
    value_copy_' (fst (snd (LRUCache_find no_accessor 2 True abc_cache))) = ''b'' \<and>
    LRUCache_find no_accessor 2 False abc_cache
     = (True, no_accessor\<lparr>constAccessor_' := None, value_copy_' := ''b''\<rparr>, abc_cache)"
    by auto
  from find_returns_copy [of no_accessor 5 True abc_cache] a
  have 2: "\<not> fst (LRUCache_find no_accessor 5 True abc_cache)" by auto
  from 1 2 show ?thesis by simp
qed

text \<open>
  C6. \<^verbatim>\<open>insert(key, value)\<close> returns true when the key is not in the map and false when
  it is; in the second case the map is unchanged, so a following \<^verbatim>\<open>find\<close> returns true
  with the value stored before.
\<close>

theorem insert_duplicate_keeps_value:
  "fst (LRUCache_insert key val st) = (hash_map_' st key = None) \<and>
   (\<forall>old. hash_map_' st key = Some old \<longrightarrow>
      hash_map_' (snd (LRUCache_insert key val st)) = hash_map_' st \<and>
      fst (LRUCache_find ac key got_lock (snd (LRUCache_insert key val st))) \<and>
      value_copy_' (fst (snd (LRUCache_find ac key got_lock (snd (LRUCache_insert key val st)))))
        = value_' old)"
  by (auto simp: insert_result insert_dup find_present)

theorem insert_duplicate_keeps_value_witness:
  "\<not> fst (LRUCache_insert 2 ''z'' abc_cache) \<and>
   fst (LRUCache_find no_accessor 2 True (snd (LRUCache_insert 2 ''z'' abc_cache))) \<and>
   value_copy_' (fst (snd (LRUCache_find no_accessor 2 True (snd (LRUCache_insert 2 ''z'' abc_cache)))))
     = ''b'' \<and>
   fst (LRUCache_insert 5 ''z'' abc_cache)"
proof -
  have a: "hash_map_' abc_cache 5 = None" by code_simp
  have b: "hash_map_' abc_cache 2 = Some \<lparr>listNode_' = Node 1, value_' = ''b''\<rparr>" by code_simp
  from insert_duplicate_keeps_value [of 2 "''z''" abc_cache no_accessor True] b
  have 1: "\<not> fst (LRUCache_insert 2 ''z'' abc_cache) \<and>
   fst (LRUCache_find no_accessor 2 True (snd (LRUCache_insert 2 ''z'' abc_cache))) \<and>
   value_copy_' (fst (snd (LRUCache_find no_accessor 2 True (snd (LRUCache_insert 2 ''z'' abc_cache)))))
     = ''b''"
    by auto
  from insert_duplicate_keeps_value [of 5 "''z''" abc_cache no_accessor True] a
  have 2: "fst (LRUCache_insert 5 ''z'' abc_cache)" by auto
  from 1 2 show ?thesis by simp
qed



lemma popFront_cases:
  "popFront st =
     (if next_' (nodes st Head) = Tail then st
      else (unlink (next_' (nodes st Head)) st)
             \<lparr>hash_map_' := (hash_map_' st)(key_' (nodes st (next_' (nodes st Head))) := None)\<rparr>)"
proof (cases "hash_map_' st (key_' (nodes st (next_' (nodes st Head))))")
  case None
  then have "(hash_map_' st)(key_' (nodes st (next_' (nodes st Head))) := None) = hash_map_' st"
    by auto
  moreover have "\<And>c. (unlink c st)\<lparr>hash_map_' := hash_map_' st\<rparr> = unlink c st"
    by (simp add: unlink_def Let_def)
  ultimately show ?thesis using None by (simp add: popFront_def Let_def)
next
  case (Some v)
  then show ?thesis by (simp add: popFront_def Let_def)
qed

lemma insert_counter:
  assumes "hash_map_' st key = None"
  shows "current_size_' (snd (LRUCache_insert key val st)) =
        (if current_size_' st < capacity_' st then current_size_' st + 1
         else if current_size_' st = capacity_' st then current_size_' st
         else current_size_' st - 1)"
proof -
  let ?st3 = "append_node (Node (next_node st)) (popFront (snd (insert_map key val st)))"
  have c3: "current_size_' ?st3 = current_size_' st" "capacity_' ?st3 = capacity_' st"
    using assms by simp_all
  consider "current_size_' st < capacity_' st" | "current_size_' st = capacity_' st"
    | "capacity_' st < current_size_' st" by linarith
  then show ?thesis
  proof cases
    case 1
    then show ?thesis using assms by (simp add: insert_new_below)
  next
    case 2
    then have "insert_correct (current_size_' st) ?st3 = ?st3"
      using assms by (simp add: insert_correct_def)
    with 2 assms show ?thesis by (simp add: insert_new_full)
  next
    case 3
    then have "insert_correct (current_size_' st) ?st3
        = popFront (?st3\<lparr>current_size_' := current_size_' st - 1\<rparr>)"
      using assms by (simp add: insert_correct_def compare_exchange_strong_def)
    with 3 assms show ?thesis by (simp add: insert_new_full)
  qed
qed



lemma insert_exact:
  assumes "hash_map_' st key = None"
  shows "LRUCache_insert key val st =
    (True,
     if current_size_' st < capacity_' st then
       (append_node (Node (next_node st)) (snd (insert_map key val st)))
          \<lparr>current_size_' := current_size_' st + 1\<rparr>
     else if current_size_' st = capacity_' st then
       append_node (Node (next_node st)) (popFront (snd (insert_map key val st)))
     else
       popFront ((append_node (Node (next_node st)) (popFront (snd (insert_map key val st))))
          \<lparr>current_size_' := current_size_' st - 1\<rparr>))"
proof -
  let ?st3 = "append_node (Node (next_node st)) (popFront (snd (insert_map key val st)))"
  consider "current_size_' st < capacity_' st" | "current_size_' st = capacity_' st"
    | "capacity_' st < current_size_' st" by linarith
  then show ?thesis
  proof cases
    case 1
    then show ?thesis using assms by (simp add: insert_new_below)
  next
    case 2
    then have "insert_correct (current_size_' st) ?st3 = ?st3"
      using assms by (simp add: insert_correct_def)
    with 2 assms show ?thesis by (simp add: insert_new_full)
  next
    case 3
    then have "insert_correct (current_size_' st) ?st3
        = popFront (?st3\<lparr>current_size_' := current_size_' st - 1\<rparr>)"
      using assms by (simp add: insert_correct_def compare_exchange_strong_def)
    with 3 assms show ?thesis by (simp add: insert_new_full)
  qed
qed

lemma popFront_list:
  assumes "lru_list st (c # ns)"
  shows "lru_list (popFront st) ns"
    and "hash_map_' (popFront st) = (hash_map_' st)(key_' (nodes st c) := None)"
    and "\<And>p. key_' (nodes (popFront st) p) = key_' (nodes st p)"
proof -
  note p = popFront_nonempty [OF assms]
  have "lru_list (unlink c st) ([] @ ns)" using assms by (intro lru_list_unlink) simp
  then show "lru_list (popFront st) ns" by (simp add: p)
  show "hash_map_' (popFront st) = (hash_map_' st)(key_' (nodes st c) := None)"
    by (simp add: p)
  show "\<And>p. key_' (nodes (popFront st) p) = key_' (nodes st p)"
    by (simp add: p)
qed

lemma insert_below_list:
  assumes "hash_map_' st key = None" "current_size_' st < capacity_' st" "lru_list st ns"
  shows "lru_list (snd (LRUCache_insert key val st)) (ns @ [Node (next_node st)])"
    and "hash_map_' (snd (LRUCache_insert key val st))
      = (hash_map_' st)(key \<mapsto> \<lparr>listNode_' = Node (next_node st), value_' = val\<rparr>)"
proof -
  let ?node = "Node (next_node st)"
  let ?st1 = "snd (insert_map key val st)"
  have l1: "lru_list ?st1 ns" using assms(3) by (rule lru_list_alloc) (simp_all add: assms(1))
  have "lru_list (append_node ?node ?st1) (ns @ [?node])"
    using l1 refl
    by (rule lru_list_append_node) (simp_all add: assms(1) fresh_not_in_list [OF assms(3)])
  then show "lru_list (snd (LRUCache_insert key val st)) (ns @ [?node])"
    using assms(1,2) by (simp add: insert_exact)
  show "hash_map_' (snd (LRUCache_insert key val st))
      = (hash_map_' st)(key \<mapsto> \<lparr>listNode_' = ?node, value_' = val\<rparr>)"
    using assms(1,2) by (simp add: insert_exact)
qed

lemma insert_full_list:
  assumes "hash_map_' st key = None" "current_size_' st = capacity_' st" "lru_list st (c # ns)"
  shows "lru_list (snd (LRUCache_insert key val st)) (ns @ [Node (next_node st)])"
    and "hash_map_' (snd (LRUCache_insert key val st))
      = ((hash_map_' st)(key \<mapsto> \<lparr>listNode_' = Node (next_node st), value_' = val\<rparr>))
          (key_' (nodes st c) := None)"
proof -
  let ?node = "Node (next_node st)"
  let ?st1 = "snd (insert_map key val st)"
  have fr: "?node \<notin> set (c # ns)" using assms(3) by (rule fresh_not_in_list)
  have l1: "lru_list ?st1 (c # ns)" using assms(3) by (rule lru_list_alloc) (simp_all add: assms(1))
  note p = popFront_list [OF l1]
  have kc: "key_' (nodes ?st1 c) = key_' (nodes st c)" using fr by (auto simp: assms(1))
  have "lru_list (append_node ?node (popFront ?st1)) (ns @ [?node])"
    using p(1) refl by (rule lru_list_append_node) (use fr in \<open>simp_all add: assms(1)\<close>)
  then show "lru_list (snd (LRUCache_insert key val st)) (ns @ [?node])"
    using assms(1,2) by (simp add: insert_exact)
  show "hash_map_' (snd (LRUCache_insert key val st))
      = ((hash_map_' st)(key \<mapsto> \<lparr>listNode_' = ?node, value_' = val\<rparr>))
          (key_' (nodes st c) := None)"
    using assms(1,2) fr by (auto simp: insert_exact p(2))
qed

lemma insert_over_list:
  assumes "hash_map_' st key = None" "capacity_' st < current_size_' st"
    "lru_list st (c # c' # ns)"
  shows "lru_list (snd (LRUCache_insert key val st)) (ns @ [Node (next_node st)])"
    and "hash_map_' (snd (LRUCache_insert key val st))
      = ((hash_map_' st)(key \<mapsto> \<lparr>listNode_' = Node (next_node st), value_' = val\<rparr>))
          (key_' (nodes st c) := None, key_' (nodes st c') := None)"
proof -
  let ?node = "Node (next_node st)"
  let ?st1 = "snd (insert_map key val st)"
  let ?st3 = "(append_node ?node (popFront ?st1))\<lparr>current_size_' := current_size_' st - 1\<rparr>"
  have fr: "?node \<notin> set (c # c' # ns)" using assms(3) by (rule fresh_not_in_list)
  have l1: "lru_list ?st1 (c # c' # ns)"
    using assms(3) by (rule lru_list_alloc) (simp_all add: assms(1))
  note p = popFront_list [OF l1]
  have kc: "key_' (nodes ?st1 c) = key_' (nodes st c)" "key_' (nodes ?st1 c') = key_' (nodes st c')"
    using fr by (auto simp: assms(1))
  have "lru_list (append_node ?node (popFront ?st1)) ((c' # ns) @ [?node])"
    using p(1) refl by (rule lru_list_append_node) (use fr in \<open>simp_all add: assms(1)\<close>)
  then have l3: "lru_list ?st3 (c' # ns @ [?node])" by simp
  note q = popFront_list [OF l3]
  have k3: "key_' (nodes ?st3 c') = key_' (nodes st c')"
    by (simp add: p(3) kc)
  have r: "snd (LRUCache_insert key val st) = popFront ?st3"
    using assms(1,2) by (simp add: insert_exact)
  show "lru_list (snd (LRUCache_insert key val st)) (ns @ [?node])"
    unfolding r by (rule q(1))
  show "hash_map_' (snd (LRUCache_insert key val st))
      = ((hash_map_' st)(key \<mapsto> \<lparr>listNode_' = ?node, value_' = val\<rparr>))
          (key_' (nodes st c) := None, key_' (nodes st c') := None)"
    unfolding r q(2) k3 using fr by (auto simp: p(2) assms(1))
qed


text \<open>
  C9, as the code has it. \<^verbatim>\<open>popFront\<close> never changes the counter: on an empty list it
  does nothing, otherwise it unlinks the node after the head sentinel, the least recently
  used one, and erases that node's key from the map. An \<^verbatim>\<open>insert\<close> of a new key
  increments the counter exactly when its snapshot was below the capacity, that is when
  it did not call \<^verbatim>\<open>popFront\<close> before linking; then nothing is evicted. With a snapshot
  equal to the capacity it evicts the least recently used entry and leaves the counter
  unchanged. With a snapshot above the capacity, and at least two nodes in the list, the
  correction of lines 450 to 454 runs as well: the counter is decremented by one and the
  two least recently used entries are evicted.
\<close>

theorem popFront_keeps_counter:
  "current_size_' (popFront st) = current_size_' st \<and>
   (next_' (nodes st Head) = Tail \<longrightarrow> popFront st = st) \<and>
   (next_' (nodes st Head) \<noteq> Tail \<longrightarrow>
      popFront st
        = (unlink (next_' (nodes st Head)) st)
            \<lparr>hash_map_' := (hash_map_' st)(key_' (nodes st (next_' (nodes st Head))) := None)\<rparr> \<and>
      \<not> inList (nodes (popFront st) (next_' (nodes st Head)))) \<and>
   (\<forall>c ns. lru_list st (c # ns) \<longrightarrow>
      next_' (nodes st Head) = c \<and> lru_list (popFront st) ns \<and>
      hash_map_' (popFront st) = (hash_map_' st)(key_' (nodes st c) := None)) \<and>
   (hash_map_' st key = None \<longrightarrow>
      LRUCache_insert key val st =
        (True,
         if current_size_' st < capacity_' st then
           (append_node (Node (next_node st)) (snd (insert_map key val st)))
              \<lparr>current_size_' := current_size_' st + 1\<rparr>
         else if current_size_' st = capacity_' st then
           append_node (Node (next_node st)) (popFront (snd (insert_map key val st)))
         else
           popFront ((append_node (Node (next_node st)) (popFront (snd (insert_map key val st))))
              \<lparr>current_size_' := current_size_' st - 1\<rparr>)) \<and>
      current_size_' (snd (LRUCache_insert key val st)) =
        (if current_size_' st < capacity_' st then current_size_' st + 1
         else if current_size_' st = capacity_' st then current_size_' st
         else current_size_' st - 1) \<and>
      (\<forall>ns. current_size_' st < capacity_' st \<and> lru_list st ns \<longrightarrow>
         lru_list (snd (LRUCache_insert key val st)) (ns @ [Node (next_node st)]) \<and>
         hash_map_' (snd (LRUCache_insert key val st))
           = (hash_map_' st)(key \<mapsto> \<lparr>listNode_' = Node (next_node st), value_' = val\<rparr>)) \<and>
      (\<forall>c ns. current_size_' st = capacity_' st \<and> lru_list st (c # ns) \<longrightarrow>
         lru_list (snd (LRUCache_insert key val st)) (ns @ [Node (next_node st)]) \<and>
         hash_map_' (snd (LRUCache_insert key val st))
           = ((hash_map_' st)(key \<mapsto> \<lparr>listNode_' = Node (next_node st), value_' = val\<rparr>))
               (key_' (nodes st c) := None)) \<and>
      (\<forall>c c' ns. capacity_' st < current_size_' st \<and> lru_list st (c # c' # ns) \<longrightarrow>
         lru_list (snd (LRUCache_insert key val st)) (ns @ [Node (next_node st)]) \<and>
         hash_map_' (snd (LRUCache_insert key val st))
           = ((hash_map_' st)(key \<mapsto> \<lparr>listNode_' = Node (next_node st), value_' = val\<rparr>))
               (key_' (nodes st c) := None, key_' (nodes st c') := None)))"
proof (intro conjI allI impI)
  show "current_size_' (popFront st) = current_size_' st" by simp
next
  assume "next_' (nodes st Head) = Tail"
  then show "popFront st = st" by (simp add: popFront_cases)
next
  assume "next_' (nodes st Head) \<noteq> Tail"
  then have p: "popFront st = (unlink (next_' (nodes st Head)) st)
             \<lparr>hash_map_' := (hash_map_' st)(key_' (nodes st (next_' (nodes st Head))) := None)\<rparr>"
    by (simp add: popFront_cases)
  then show "popFront st = (unlink (next_' (nodes st Head)) st)
             \<lparr>hash_map_' := (hash_map_' st)(key_' (nodes st (next_' (nodes st Head))) := None)\<rparr>" .
  show "\<not> inList (nodes (popFront st) (next_' (nodes st Head)))"
    unfolding p by simp
next
  fix c ns assume l: "lru_list st (c # ns)"
  then show "next_' (nodes st Head) = c" by (simp add: lru_list_head_next)
  from l show "lru_list (popFront st) ns" by (rule popFront_list(1))
  from l show "hash_map_' (popFront st) = (hash_map_' st)(key_' (nodes st c) := None)"
    by (rule popFront_list(2))
next
  assume a: "hash_map_' st key = None"
  then show "LRUCache_insert key val st =
        (True,
         if current_size_' st < capacity_' st then
           (append_node (Node (next_node st)) (snd (insert_map key val st)))
              \<lparr>current_size_' := current_size_' st + 1\<rparr>
         else if current_size_' st = capacity_' st then
           append_node (Node (next_node st)) (popFront (snd (insert_map key val st)))
         else
           popFront ((append_node (Node (next_node st)) (popFront (snd (insert_map key val st))))
              \<lparr>current_size_' := current_size_' st - 1\<rparr>))"
    by (rule insert_exact)
  from a show "current_size_' (snd (LRUCache_insert key val st)) =
        (if current_size_' st < capacity_' st then current_size_' st + 1
         else if current_size_' st = capacity_' st then current_size_' st
         else current_size_' st - 1)"
    by (rule insert_counter)
  {
    fix ns assume b: "current_size_' st < capacity_' st \<and> lru_list st ns"
    then have b1: "current_size_' st < capacity_' st" and b2: "lru_list st ns" by simp_all
    show "lru_list (snd (LRUCache_insert key val st)) (ns @ [Node (next_node st)])"
      using a b1 b2 by (rule insert_below_list(1))
    show "hash_map_' (snd (LRUCache_insert key val st))
           = (hash_map_' st)(key \<mapsto> \<lparr>listNode_' = Node (next_node st), value_' = val\<rparr>)"
      using a b1 b2 by (rule insert_below_list(2))
  }
  {
    fix c ns assume b: "current_size_' st = capacity_' st \<and> lru_list st (c # ns)"
    then have b1: "current_size_' st = capacity_' st" and b2: "lru_list st (c # ns)" by simp_all
    show "lru_list (snd (LRUCache_insert key val st)) (ns @ [Node (next_node st)])"
      using a b1 b2 by (rule insert_full_list(1))
    show "hash_map_' (snd (LRUCache_insert key val st))
           = ((hash_map_' st)(key \<mapsto> \<lparr>listNode_' = Node (next_node st), value_' = val\<rparr>))
               (key_' (nodes st c) := None)"
      using a b1 b2 by (rule insert_full_list(2))
  }
  {
    fix c c' ns assume b: "capacity_' st < current_size_' st \<and> lru_list st (c # c' # ns)"
    then have b1: "capacity_' st < current_size_' st" and b2: "lru_list st (c # c' # ns)"
      by simp_all
    show "lru_list (snd (LRUCache_insert key val st)) (ns @ [Node (next_node st)])"
      using a b1 b2 by (rule insert_over_list(1))
    show "hash_map_' (snd (LRUCache_insert key val st))
           = ((hash_map_' st)(key \<mapsto> \<lparr>listNode_' = Node (next_node st), value_' = val\<rparr>))
               (key_' (nodes st c) := None, key_' (nodes st c') := None)"
      using a b1 b2 by (rule insert_over_list(2))
  }
qed

theorem popFront_keeps_counter_witness:
  "popFront (new_LRUCache 0 3 :: (int, string) LRUCache) = new_LRUCache 0 3 \<and>
   lru_list (snd (LRUCache_insert 4 ''d'' (new_LRUCache 0 3 :: (int, string) LRUCache))) [Node 0] \<and>
   \<not> inList (nodes (popFront abc_cache) (Node 0)) \<and>
   lru_list (popFront abc_cache) [Node 1, Node 2] \<and>
   hash_map_' (popFront abc_cache) = (hash_map_' abc_cache)(1 := None) \<and>
   lru_list (snd (LRUCache_insert 4 ''d'' abc_cache)) [Node 1, Node 2, Node 3] \<and>
   hash_map_' (snd (LRUCache_insert 4 ''d'' abc_cache))
     = ((hash_map_' abc_cache)(4 \<mapsto> \<lparr>listNode_' = Node 3, value_' = ''d''\<rparr>))(1 := None) \<and>
   current_size_' (snd (LRUCache_insert 4 ''d'' abc_cache)) = 3 \<and>
   lru_list (snd (LRUCache_insert 3 ''c'' overcommitted)) [Node 2] \<and>
   hash_map_' (snd (LRUCache_insert 3 ''c'' overcommitted))
     = ((hash_map_' overcommitted)(3 \<mapsto> \<lparr>listNode_' = Node 2, value_' = ''c''\<rparr>))
         (1 := None, 2 := None) \<and>
   current_size_' (snd (LRUCache_insert 3 ''c'' overcommitted)) = 1"
proof -
  define N :: "(int, string) LRUCache" where "N = new_LRUCache 0 3"
  have n1: "next_' (nodes N Head) = Tail" by (simp add: N_def new_LRUCache_def)
  have n2: "hash_map_' N 4 = None" by (simp add: N_def new_LRUCache_def)
  have n3: "current_size_' N < capacity_' N \<and> lru_list N []"
    by (simp add: N_def new_LRUCache_def lru_list_def)
  have n4: "next_node N = 0" by (simp add: N_def new_LRUCache_def)
  have a1: "next_' (nodes abc_cache Head) \<noteq> Tail" by code_simp
  have a2: "next_' (nodes abc_cache Head) = Node 0" by code_simp
  have a3: "key_' (nodes abc_cache (Node 0)) = 1" by code_simp
  have a4: "hash_map_' abc_cache 4 = None" by code_simp
  have a5: "current_size_' abc_cache = 3" by code_simp
  have a6: "capacity_' abc_cache = 3" by code_simp
  have a7: "links (nodes abc_cache) [Head, Node 0, Node 1, Node 2, Tail]" by code_simp
  have a8: "next_node abc_cache = 3" by code_simp
  have a9: "lru_list abc_cache (Node 0 # [Node 1, Node 2])"
    using a7 a8 by (simp add: lru_list_def)
  have o1: "hash_map_' overcommitted 3 = None" by code_simp
  have o2: "current_size_' overcommitted = 2" by code_simp
  have o3: "capacity_' overcommitted = 1" by code_simp
  have o4: "links (nodes overcommitted) [Head, Node 0, Node 1, Tail]" by code_simp
  have o5: "next_node overcommitted = 2" by code_simp
  have o6: "key_' (nodes overcommitted (Node 0)) = 1" by code_simp
  have o7: "key_' (nodes overcommitted (Node 1)) = 2" by code_simp
  have o8: "lru_list overcommitted (Node 0 # Node 1 # [])"
    using o4 o5 by (simp add: lru_list_def)
  note tN = popFront_keeps_counter [of N 4 "''d''"]
  note tA = popFront_keeps_counter [of abc_cache 4 "''d''"]
  note tO = popFront_keeps_counter [of overcommitted 3 "''c''"]
  from tN n1 have 1: "popFront N = N" by blast
  from tN n2 n3 have "lru_list (snd (LRUCache_insert 4 ''d'' N)) ([] @ [Node (next_node N)])"
    by blast
  then have 2: "lru_list (snd (LRUCache_insert 4 ''d'' N)) [Node 0]" unfolding n4 by simp
  from tA a1 have "\<not> inList (nodes (popFront abc_cache) (next_' (nodes abc_cache Head)))"
    by blast
  then have 3: "\<not> inList (nodes (popFront abc_cache) (Node 0))" unfolding a2 .
  from tA a9 have "lru_list (popFront abc_cache) [Node 1, Node 2] \<and>
      hash_map_' (popFront abc_cache)
        = (hash_map_' abc_cache)(key_' (nodes abc_cache (Node 0)) := None)"
    by blast
  then have 4: "lru_list (popFront abc_cache) [Node 1, Node 2]"
    and 5: "hash_map_' (popFront abc_cache) = (hash_map_' abc_cache)(1 := None)"
    unfolding a3 by blast+
  have a10: "current_size_' abc_cache = capacity_' abc_cache \<and> lru_list abc_cache (Node 0 # [Node 1, Node 2])"
    using a5 a6 a9 by simp
  from tA a4 a10 have "lru_list (snd (LRUCache_insert 4 ''d'' abc_cache))
         ([Node 1, Node 2] @ [Node (next_node abc_cache)]) \<and>
      hash_map_' (snd (LRUCache_insert 4 ''d'' abc_cache))
        = ((hash_map_' abc_cache)(4 \<mapsto> \<lparr>listNode_' = Node (next_node abc_cache), value_' = ''d''\<rparr>))
            (key_' (nodes abc_cache (Node 0)) := None)"
    by blast
  then have 6: "lru_list (snd (LRUCache_insert 4 ''d'' abc_cache)) [Node 1, Node 2, Node 3]"
    and 7: "hash_map_' (snd (LRUCache_insert 4 ''d'' abc_cache))
     = ((hash_map_' abc_cache)(4 \<mapsto> \<lparr>listNode_' = Node 3, value_' = ''d''\<rparr>))(1 := None)"
    unfolding a3 a8 by simp_all
  from tA a4 have "current_size_' (snd (LRUCache_insert 4 ''d'' abc_cache)) =
        (if current_size_' abc_cache < capacity_' abc_cache then current_size_' abc_cache + 1
         else if current_size_' abc_cache = capacity_' abc_cache then current_size_' abc_cache
         else current_size_' abc_cache - 1)"
    by blast
  then have 8: "current_size_' (snd (LRUCache_insert 4 ''d'' abc_cache)) = 3"
    unfolding a5 a6 by simp
  have o9: "capacity_' overcommitted < current_size_' overcommitted \<and>
      lru_list overcommitted (Node 0 # Node 1 # [])"
    using o2 o3 o8 by simp
  from tO o1 o9 have "lru_list (snd (LRUCache_insert 3 ''c'' overcommitted))
         ([] @ [Node (next_node overcommitted)]) \<and>
      hash_map_' (snd (LRUCache_insert 3 ''c'' overcommitted))
        = ((hash_map_' overcommitted)(3 \<mapsto> \<lparr>listNode_' = Node (next_node overcommitted), value_' = ''c''\<rparr>))
            (key_' (nodes overcommitted (Node 0)) := None, key_' (nodes overcommitted (Node 1)) := None)"
    by blast
  then have 9: "lru_list (snd (LRUCache_insert 3 ''c'' overcommitted)) [Node 2]"
    and 10: "hash_map_' (snd (LRUCache_insert 3 ''c'' overcommitted))
     = ((hash_map_' overcommitted)(3 \<mapsto> \<lparr>listNode_' = Node 2, value_' = ''c''\<rparr>))
         (1 := None, 2 := None)"
    unfolding o5 o6 o7 by simp_all
  from tO o1 have "current_size_' (snd (LRUCache_insert 3 ''c'' overcommitted)) =
        (if current_size_' overcommitted < capacity_' overcommitted then current_size_' overcommitted + 1
         else if current_size_' overcommitted = capacity_' overcommitted then current_size_' overcommitted
         else current_size_' overcommitted - 1)"
    by blast
  then have 11: "current_size_' (snd (LRUCache_insert 3 ''c'' overcommitted)) = 1"
    unfolding o2 o3 by simp
  from 1 2 3 4 5 6 7 8 9 10 11 show ?thesis unfolding N_def by blast
qed

text \<open>
  C9 as stated does not hold where the counter is above the capacity. In \<open>overcommitted\<close>
  (capacity 1, counter 2, keys 1 and 2) \<^verbatim>\<open>insert(3,"c")\<close> evicts before linking, since
  its snapshot 2 is not below the capacity, and leaves \<^verbatim>\<open>size()\<close> at 1, not at 2.
\<close>


theorem insert_evicting_changes_size:
  "LRUCache_size overcommitted = 2 \<and> LRUCache_capacity overcommitted = 1 \<and>
   hash_map_' overcommitted 3 = None \<and>
   fst (insert_evict (snd (insert_map 3 ''c'' overcommitted))) = (2, True) \<and>
   hash_map_' overcommitted 1 \<noteq> None \<and>
   hash_map_' (snd (insert_evict (snd (insert_map 3 ''c'' overcommitted)))) 1 = None \<and>
   LRUCache_size (snd (LRUCache_insert 3 ''c'' overcommitted)) = 1"
  apply (intro conjI)
  apply code_simp
 apply code_simp
 apply code_simp
 apply code_simp
 apply code_simp
 apply code_simp
 apply code_simp
 done




text \<open>
  C10. When \<^verbatim>\<open>insert(key, value)\<close> returns false because the key is in the map, the
  only change is the allocation of the node that is then discarded: the map, the counter,
  the sentinels and every node that existed are as before, the new node was never in the
  list, and the recency order is the one before the call (the key is not promoted).
\<close>

theorem duplicate_insert_leaves_list:
  assumes "hash_map_' st key = Some old"
  shows "\<not> fst (LRUCache_insert key val st) \<and>
         current_size_' (snd (LRUCache_insert key val st)) = current_size_' st \<and>
         hash_map_' (snd (LRUCache_insert key val st)) = hash_map_' st \<and>
         (\<forall>p. p \<noteq> Node (next_node st) \<longrightarrow>
            nodes (snd (LRUCache_insert key val st)) p = nodes st p) \<and>
         \<not> inList (nodes (snd (LRUCache_insert key val st)) (Node (next_node st))) \<and>
         (\<forall>ns. lru_list st ns \<longrightarrow>
            lru_list (snd (LRUCache_insert key val st)) ns \<and> Node (next_node st) \<notin> set ns) \<and>
         (\<forall>ks. recency st ks \<longrightarrow> recency (snd (LRUCache_insert key val st)) ks)"
proof -
  have i: "LRUCache_insert key val st = (False, snd (make_shared key st))"
    using assms by (rule insert_dup)
  have "\<And>ns. lru_list st ns \<Longrightarrow> lru_list (snd (make_shared key st)) ns"
    by (rule lru_list_alloc) simp_all
  moreover have "\<And>ks. recency st ks \<Longrightarrow> recency (snd (LRUCache_insert key val st)) ks"
    using assms by (intro recency_insert_dup)
  ultimately show ?thesis
    unfolding i by (simp add: fresh_not_in_list inList_def ListNode_def)
qed

theorem duplicate_insert_leaves_list_witness:
  "\<not> fst (LRUCache_insert 1 ''z'' abc_cache) \<and>
   current_size_' (snd (LRUCache_insert 1 ''z'' abc_cache)) = 3 \<and>
   lru_list (snd (LRUCache_insert 1 ''z'' abc_cache)) [Node 0, Node 1, Node 2] \<and>
   recency (snd (LRUCache_insert 1 ''z'' abc_cache)) [1, 2, 3]"
proof -
  have a: "hash_map_' abc_cache 1 = Some \<lparr>listNode_' = Node 0, value_' = ''a''\<rparr>" by code_simp
  have e: "current_size_' abc_cache = 3" by code_simp
  have f0: "links (nodes abc_cache) [Head, Node 0, Node 1, Node 2, Tail]" by code_simp
  have f1: "next_node abc_cache = 3" by code_simp
  have f: "lru_list abc_cache [Node 0, Node 1, Node 2]"
    using f0 f1 by (simp add: lru_list_def)
  have "recency (new_LRUCache (0::int) 3 :: (int, string) LRUCache) []"
    by (rule recency_new) simp
  then have "recency (run (map (\<lambda>(k, v). Insert k v) [(1, ''a''), (2, ''b''), (3, ''c'')])
        (new_LRUCache (0::int) 3 :: (int, string) LRUCache)) ([] @ map fst [(1::int, ''a''), (2, ''b''), (3, ''c'')]) \<and>
      capacity_' (run (map (\<lambda>(k, v). Insert k v) [(1, ''a''), (2, ''b''), (3, ''c'')])
        (new_LRUCache (0::int) 3 :: (int, string) LRUCache)) = capacity_' (new_LRUCache (0::int) 3 :: (int, string) LRUCache)"
    by (rule recency_inserts) (simp_all add: new_LRUCache_def)
  then have r: "recency abc_cache [1, 2, 3]"
    by (simp add: abc_cache_def)
  note t = duplicate_insert_leaves_list [OF a, of "''z''"]
  from t have 1: "\<not> fst (LRUCache_insert 1 ''z'' abc_cache)" by blast
  from t e have 2: "current_size_' (snd (LRUCache_insert 1 ''z'' abc_cache)) = 3" by simp
  from t f have 3: "lru_list (snd (LRUCache_insert 1 ''z'' abc_cache)) [Node 0, Node 1, Node 2]"
    by blast
  from t r have 4: "recency (snd (LRUCache_insert 1 ''z'' abc_cache)) [1, 2, 3]" by blast
  from 1 2 3 4 show ?thesis by blast
qed

text \<open>
  C2. \<^verbatim>\<open>size = current_size_++\<close> leaves in \<^verbatim>\<open>size\<close> the value the counter had before
  the increment. With capacity 1 and the two concurrent inserts of \<open>two_inserts\<close>, thread
  B's \<^verbatim>\<open>size\<close> is 1 while the counter it has just incremented is 2: the test
  \<^verbatim>\<open>size > capacity_\<close> fails, no compare-and-swap and no \<^verbatim>\<open>popFront\<close> take place, and
  when both calls have returned \<^verbatim>\<open>size()\<close> is 2, above the capacity, with both keys
  in the cache. Whenever no other thread changes the counter between lines 447 and 451,
  lines 450 to 454 change nothing after an increment.
\<close>

theorem insert_reads_counter_before_increment:
  "insert_count (sz, False) st = (current_size_' st, st\<lparr>current_size_' := current_size_' st + 1\<rparr>) \<and>
   insert_correct (fst (insert_count (sz, False) st)) (snd (insert_count (sz, False) st))
     = snd (insert_count (sz, False) st) \<and>
   fst two_inserts = 1 \<and>
   LRUCache_size overcommitted = 2 \<and>
   LRUCache_capacity overcommitted = 1 \<and>
   hash_map_' overcommitted 1 = Some \<lparr>listNode_' = Node 0, value_' = ''a''\<rparr> \<and>
   hash_map_' overcommitted 2 = Some \<lparr>listNode_' = Node 1, value_' = ''b''\<rparr>"
  apply (intro conjI)
        apply (simp add: insert_count_def)
       apply (simp add: insert_count_def insert_correct_def compare_exchange_strong_def)
      apply code_simp
     apply code_simp
    apply code_simp
   apply code_simp
  apply code_simp
  done


section \<open>Primes and bucket chains\<close>

lemma prime_nat_trial:
  assumes "prime_nat n"
  shows "trial n"
  unfolding trial_def
proof (intro allI impI)
  fix j :: nat assume j: "1 \<le> j" and le: "(6 * j - 1)\<^sup>2 \<le> n"
  have a: "6 * j - 1 < (6 * j - 1)\<^sup>2" using j by (simp add: power2_eq_square)
  have b: "6 * j + 1 < (6 * j - 1)\<^sup>2"
  proof -
    obtain i where i: "j = Suc i" using j by (cases j) auto
    show ?thesis unfolding i by (simp add: power2_eq_square algebra_simps)
  qed
  from assms have p: "\<And>d. d dvd n \<Longrightarrow> d = 1 \<or> d = n" by (simp add: prime_nat_def)
  show "\<not> (6 * j + 1) dvd n \<and> \<not> (6 * j - 1) dvd n"
  proof (intro conjI notI)
    assume "(6 * j + 1) dvd n"
    from p [OF this] b le j show False by auto
  next
    assume "(6 * j - 1) dvd n"
    from p [OF this] a le j show False by auto
  qed
qed

lemma trial_prime_nat:
  assumes "trial n" "1 < n" "odd n" "\<not> 3 dvd n"
  shows "prime_nat n"
proof (rule ccontr)
  assume "\<not> prime_nat n"
  with assms(2) obtain d where d: "d dvd n" "d \<noteq> 1" "d \<noteq> n" by (auto simp: prime_nat_def)
  then obtain e where e: "n = d * e" by (auto simp: dvd_def)
  define a where "a = min d e"
  define b where "b = max d e"
  have ab: "n = a * b" "a \<le> b" unfolding a_def b_def e by (auto simp: min_def max_def mult.commute)
  have "0 < d * e" using e assms(2) by linarith
  then have "d \<noteq> 0" "e \<noteq> 0" by simp_all
  moreover have "e \<noteq> 1" using e d(3) by auto
  ultimately have a1: "1 < a" using d(2) unfolding a_def by (auto simp: min_def)
  have sq: "a\<^sup>2 \<le> n" unfolding ab(1) power2_eq_square using ab(2) by simp
  have adv: "a dvd n" unfolding ab(1) by simp
  have "odd a" using assms(3) adv by (meson dvd_trans)
  moreover have "\<not> 3 dvd a" using assms(4) adv by (meson dvd_trans)
  ultimately have "a mod 6 = 1 \<or> a mod 6 = 5" by presburger
  then show False
  proof
    assume m: "a mod 6 = 1"
    define j where "j = a div 6"
    have aj: "a = 6 * j + 1" using m unfolding j_def by presburger
    with a1 have j1: "1 \<le> j" by simp
    have "(6 * j - 1)\<^sup>2 \<le> a\<^sup>2" unfolding aj by (rule power_mono) simp_all
    then have "(6 * j - 1)\<^sup>2 \<le> n" using sq by (rule order_trans)
    with assms(1) j1 have "\<not> (6 * j + 1) dvd n" by (simp add: trial_def)
    with adv aj show False by simp
  next
    assume m: "a mod 6 = 5"
    define j where "j = a div 6 + 1"
    have aj: "a = 6 * j - 1" using m unfolding j_def by presburger
    have j1: "1 \<le> j" by (simp add: j_def)
    from sq have "(6 * j - 1)\<^sup>2 \<le> n" unfolding aj .
    with assms(1) j1 have "\<not> (6 * j - 1) dvd n" by (simp add: trial_def)
    with adv aj show False by simp
  qed
qed



lemma sq_6k: "1 \<le> (K::nat) \<Longrightarrow> (6 * K - 1)\<^sup>2 = 36 * K * K - 12 * K + 1"
proof -
  assume "1 \<le> K"
  then obtain i where "K = Suc i" by (cases K) auto
  then show ?thesis by (simp add: power2_eq_square algebra_simps)
qed

lemma loop_bound:
  assumes "n < 2 ^ 63" "1 \<le> (K::nat)" "K = 1 \<or> (6 * K - 7)\<^sup>2 \<le> n"
  shows "36 * K * K < 2 ^ 64"
proof (cases "K = 1")
  case True
  then show ?thesis by simp
next
  case False
  with assms have K2: "2 \<le> K" and sq: "(6 * K - 7)\<^sup>2 \<le> n" by auto
  define a where "a = 6 * K - 7"
  have K: "6 * K = a + 7" using K2 by (simp add: a_def)
  have a2: "a\<^sup>2 < 2 ^ 63" using sq assms(1) by (simp add: a_def)
  have a32: "a < 2 ^ 32"
  proof (rule ccontr)
    assume "\<not> a < 2 ^ 32"
    then have "(2::nat) ^ 32 \<le> a" by simp
    then have "((2::nat) ^ 32)\<^sup>2 \<le> a\<^sup>2" by (rule power_mono) simp
    with a2 show False by simp
  qed
  have "36 * K * K = (6 * K) * (6 * K)" by simp
  also have "\<dots> = a\<^sup>2 + 14 * a + 49" unfolding K by (simp add: power2_eq_square algebra_simps)
  also have "\<dots> < 2 ^ 64" using a2 a32 by simp
  finally show ?thesis .
qed

lemma unat_of_nat64: "K < 2 ^ 64 \<Longrightarrow> unat (of_nat K :: 64 word) = K"
  by (simp add: unat_of_nat)

lemma loop_words:
  fixes K :: nat
  assumes "1 \<le> K" "36 * K * K < 2 ^ 64"
  shows "unat (36 * of_nat K * of_nat K - 12 * of_nat K :: 64 word) = 36 * K * K - 12 * K"
    and "unat (6 * of_nat K + 1 :: 64 word) = 6 * K + 1"
    and "unat (6 * of_nat K - 1 :: 64 word) = 6 * K - 1"
proof -
  have le: "12 * K \<le> 36 * K * K" using assms(1) by simp
  have e1: "(36 * of_nat K * of_nat K - 12 * of_nat K :: 64 word) = of_nat (36 * K * K - 12 * K)"
    using le by simp
  have b1: "36 * K * K - 12 * K < 2 ^ 64" using assms(2) by simp
  show "unat (36 * of_nat K * of_nat K - 12 * of_nat K :: 64 word) = 36 * K * K - 12 * K"
    unfolding e1 using b1 by (rule unat_of_nat64)
  have b2: "6 * K + 1 < 2 ^ 64"
  proof -
    have "6 * K + 1 \<le> 36 * K * K" using assms(1) by (cases K) auto
    with assms(2) show ?thesis by simp
  qed
  have e2: "(6 * of_nat K + 1 :: 64 word) = of_nat (6 * K + 1)" by simp
  show "unat (6 * of_nat K + 1 :: 64 word) = 6 * K + 1"
    unfolding e2 using b2 by (rule unat_of_nat64)
  have e3: "(6 * of_nat K - 1 :: 64 word) = of_nat (6 * K - 1)"
    using assms(1) by simp
  have b3: "6 * K - 1 < 2 ^ 64" using b2 by simp
  show "unat (6 * of_nat K - 1 :: 64 word) = 6 * K - 1"
    unfolding e3 using b3 by (rule unat_of_nat64)
qed

lemma word_mod_0_dvd:
  fixes x y :: "64 word"
  shows "x mod y = 0 \<longleftrightarrow> unat x mod unat y = 0"
  by (metis unat_0_iff unat_mod_distrib)


lemma isPrime_loop_trial:
  fixes x :: "64 word"
  assumes "unat x < 2 ^ 63" "1 \<le> K" "K = 1 \<or> (6 * K - 7)\<^sup>2 \<le> unat x"
    "\<forall>j. 1 \<le> j \<and> j < K \<longrightarrow> \<not> (6 * j + 1) dvd unat x \<and> \<not> (6 * j - 1) dvd unat x"
  shows "isPrime_loop x (of_nat K) = Some (trial (unat x))"
  using assms
proof (induction "unat x - K" arbitrary: K rule: less_induct)
  case less
  let ?n = "unat x"
  let ?k = "of_nat K :: 64 word"
  note K1 = less.prems(2)
  have bnd: "36 * K * K < 2 ^ 64"
    using less.prems(1) K1 less.prems(3) by (rule loop_bound)
  note w = loop_words [OF K1 bnd]
  have test: "(36 * ?k * ?k - 12 * ?k < x) = ((6 * K - 1)\<^sup>2 \<le> ?n)"
    unfolding word_less_nat_alt w(1) sq_6k [OF K1] by auto
  have d1: "(x mod (6 * ?k + 1) = 0) = ((6 * K + 1) dvd ?n)"
    unfolding word_mod_0_dvd w(2) by auto
  have d2: "(x mod (6 * ?k - 1) = 0) = ((6 * K - 1) dvd ?n)"
    unfolding word_mod_0_dvd w(3) by auto
  show ?case
  proof (cases "(6 * K - 1)\<^sup>2 \<le> ?n")
    case False
    have "trial ?n"
      unfolding trial_def
    proof (intro allI impI)
      fix j :: nat assume j: "1 \<le> j" "(6 * j - 1)\<^sup>2 \<le> ?n"
      have "j < K"
      proof (rule ccontr)
        assume "\<not> j < K"
        then have "6 * K - 1 \<le> 6 * j - 1" by simp
        then have "(6 * K - 1)\<^sup>2 \<le> (6 * j - 1)\<^sup>2" by (rule power_mono) simp
        then have "(6 * K - 1)\<^sup>2 \<le> ?n" using j(2) by (rule order_trans)
        with False show False by blast
      qed
      with less.prems(4) j(1) show "\<not> (6 * j + 1) dvd ?n \<and> \<not> (6 * j - 1) dvd ?n" by blast
    qed
    with False test show ?thesis
      by (subst isPrime_loop.simps) simp
  next
    case True
    show ?thesis
    proof (cases "(6 * K + 1) dvd ?n \<or> (6 * K - 1) dvd ?n")
      case dv: True
      have "\<not> trial ?n"
        unfolding trial_def using K1 True dv by blast
      with True dv test d1 d2 show ?thesis
        by (subst isPrime_loop.simps) simp
    next
      case nd: False
      have "6 * K - 1 \<le> (6 * K - 1)\<^sup>2" using K1 by (intro self_le_power) simp_all
      then have "6 * K - 1 \<le> ?n" using True by (rule order_trans)
      with K1 have Kn: "K < ?n" by simp
      have i3: "Suc K = 1 \<or> (6 * Suc K - 7)\<^sup>2 \<le> ?n"
      proof -
        have "6 * Suc K - 7 = 6 * K - 1" by simp
        with True show ?thesis by simp
      qed
      have i4: "\<forall>j. 1 \<le> j \<and> j < Suc K \<longrightarrow> \<not> (6 * j + 1) dvd ?n \<and> \<not> (6 * j - 1) dvd ?n"
        using less.prems(4) nd by (auto simp: less_Suc_eq)
      have "isPrime_loop x (of_nat (Suc K)) = Some (trial ?n)"
        using _ less.prems(1) _ i3 i4 by (rule less.hyps) (use Kn in simp_all)
      moreover have "?k + 1 = of_nat (Suc K)" by simp
      ultimately have "isPrime_loop x (?k + 1) = Some (trial ?n)" by (simp add: add.commute)
      with True nd test d1 d2 show ?thesis
        by (subst isPrime_loop.simps) simp
    qed
  qed
qed



lemma word_and_1_even:
  fixes x :: "64 word"
  shows "(x AND 1 = 0) = even (unat x)"
proof -
  have "(x AND 1 = 0) = (x mod 2 = 0)" by (simp add: and_one_eq)
  also have "\<dots> = (unat x mod unat (2 :: 64 word) = 0)" by (rule word_mod_0_dvd)
  also have "\<dots> = even (unat x)" by (simp add: even_iff_mod_2_eq_zero)
  finally show ?thesis .
qed

lemma word_mod_3:
  fixes x :: "64 word"
  shows "(x mod 3 = 0) = (3 dvd unat x)"
proof -
  have "(x mod 3 = 0) = (unat x mod unat (3 :: 64 word) = 0)" by (rule word_mod_0_dvd)
  then show ?thesis by (simp add: dvd_eq_mod_eq_0)
qed

lemma word_eq_numeral:
  fixes x :: "64 word"
  shows "(x = 2) = (unat x = 2)" "(x = 3) = (unat x = 3)" "(x < 2) = (unat x < 2)"
  by (simp_all add: word_unat_eq_iff word_less_nat_alt)

lemma prime_nat_2: "prime_nat 2"
  unfolding prime_nat_def
proof (intro conjI allI impI)
  fix d :: nat assume "d dvd 2"
  then have "d \<le> 2" "d \<noteq> 0" by (auto dest: dvd_imp_le intro: ccontr)
  then show "d = 1 \<or> d = 2" by auto
qed simp

lemma prime_nat_3: "prime_nat 3"
  unfolding prime_nat_def
proof (intro conjI allI impI)
  fix d :: nat assume d: "d dvd 3"
  then have "d \<le> 3" "d \<noteq> 0" by (auto dest: dvd_imp_le intro: ccontr)
  then have "d = 1 \<or> d = 2 \<or> d = 3" by auto
  with d show "d = 1 \<or> d = 3" by auto
qed simp

lemma isPrime_prime_nat:
  fixes x :: "64 word"
  assumes "unat x < 2 ^ 63"
  shows "isPrime x = Some (prime_nat (unat x))"
proof -
  let ?n = "unat x"
  have "?n < 2 \<or> ?n = 2 \<or> ?n = 3 \<or> 3 < ?n" by linarith
  then consider "?n < 2" | "?n = 2" | "?n = 3" | "3 < ?n" "even ?n" | "3 < ?n" "3 dvd ?n"
    | "3 < ?n" "odd ?n" "\<not> 3 dvd ?n"
    by blast
  then show ?thesis
  proof cases
    case 1
    then have "\<not> prime_nat ?n" by (simp add: prime_nat_def)
    with 1 show ?thesis by (simp add: isPrime_def word_eq_numeral)
  next
    case 2
    have "isPrime_loop x (of_nat 1) = Some (trial ?n)"
      using assms by (rule isPrime_loop_trial) simp_all
    moreover have "trial ?n" unfolding 2 by (rule prime_nat_trial) (rule prime_nat_2)
    ultimately show ?thesis
      using 2 prime_nat_2 by (simp add: isPrime_def word_eq_numeral word_and_1_even word_mod_3)
  next
    case 3
    have "isPrime_loop x (of_nat 1) = Some (trial ?n)"
      using assms by (rule isPrime_loop_trial) simp_all
    moreover have "trial ?n" unfolding 3 by (rule prime_nat_trial) (rule prime_nat_3)
    ultimately show ?thesis
      using 3 prime_nat_3 by (simp add: isPrime_def word_eq_numeral word_and_1_even word_mod_3)
  next
    case 4
    have "(2::nat) \<noteq> 1" "2 \<noteq> ?n" using 4(1) by simp_all
    with 4(2) have "\<not> prime_nat ?n" unfolding prime_nat_def by blast
    with 4 show ?thesis by (simp add: isPrime_def word_eq_numeral word_and_1_even)
  next
    case 5
    have "(3::nat) \<noteq> 1" "3 \<noteq> ?n" using 5(1) by simp_all
    with 5(2) have "\<not> prime_nat ?n" unfolding prime_nat_def by blast
    with 5 show ?thesis by (simp add: isPrime_def word_eq_numeral word_mod_3)
  next
    case 6
    have l: "isPrime_loop x (of_nat 1) = Some (trial ?n)"
      using assms by (rule isPrime_loop_trial) simp_all
    have "trial ?n = prime_nat ?n"
    proof
      assume "trial ?n"
      then show "prime_nat ?n" using _ 6(2,3) by (rule trial_prime_nat) (use 6(1) in simp)
    qed (rule prime_nat_trial)
    with l 6 show ?thesis
      by (simp add: isPrime_def word_eq_numeral word_and_1_even word_mod_3)
  qed
qed



lemma allocate_loop_run:
  assumes "prime_nat L" "H \<le> L" "L < 2 ^ 63" "\<forall>q. H \<le> q \<and> q < L \<longrightarrow> \<not> prime_nat q"
  shows "allocate_loop (of_nat H) = Some (of_nat L)"
  using assms(2,4)
proof (induction "L - H" arbitrary: H rule: less_induct)
  case less
  have H: "unat (of_nat H :: 64 word) = H"
    using less.prems(1) assms(3) by (intro unat_of_nat64) simp
  have "unat (of_nat H :: 64 word) < 2 ^ 63"
    unfolding H using less.prems(1) assms(3) by simp
  then have "isPrime (of_nat H) = Some (prime_nat (unat (of_nat H :: 64 word)))"
    by (rule isPrime_prime_nat)
  then have p: "isPrime (of_nat H) = Some (prime_nat H)"
    unfolding H .
  show ?case
  proof (cases "H = L")
    case True
    with p assms(1) show ?thesis
      by (subst allocate_loop.simps) simp
  next
    case False
    with less.prems have lt: "H < L" by simp
    with less.prems(2) have np: "\<not> prime_nat H" by simp
    have "allocate_loop (of_nat (Suc H)) = Some (of_nat L)"
      using _ _ _ by (rule less.hyps) (use lt less.prems(2) in auto)
    then have "allocate_loop (of_nat H + 1) = Some (of_nat L)"
      by (simp add: add.commute)
    with p np show ?thesis
      by (subst allocate_loop.simps) simp
  qed
qed

lemma least_prime:
  assumes "prime_nat p" "H \<le> p"
  defines "L \<equiv> (LEAST q. prime_nat q \<and> H \<le> q)"
  shows "prime_nat L" "H \<le> L" "L \<le> p" "\<forall>q. H \<le> q \<and> q < L \<longrightarrow> \<not> prime_nat q"
proof -
  have ex: "prime_nat p \<and> H \<le> p" using assms by simp
  from LeastI [of "\<lambda>q. prime_nat q \<and> H \<le> q", OF ex] show "prime_nat L" "H \<le> L"
    by (simp_all add: L_def)
  from Least_le [of "\<lambda>q. prime_nat q \<and> H \<le> q", OF ex] show "L \<le> p" by (simp add: L_def)
  show "\<forall>q. H \<le> q \<and> q < L \<longrightarrow> \<not> prime_nat q"
    using not_less_Least [of _ "\<lambda>q. prime_nat q \<and> H \<le> q"] by (auto simp: L_def)
qed






text \<open>The concrete tables are the ones the modelled operations produce.\<close>

lemma allocate_hint_10: "allocate always 10 (new_IntrusiveHashTable True)
    = Some (Inr \<lparr>table = Some (replicate 11 None), bucketCount = 11, usedBuckets = 0, allowDupKeys = True\<rparr>)"
  by code_simp

lemma insert_first: "IntrusiveHashTable_insert id_hash always unlinked_values
     \<lparr>table = Some (replicate 11 None), bucketCount = 11, usedBuckets = 0, allowDupKeys = True\<rparr> 42 (Some 1)
    = Some (Inr (True, one_in_bucket, one_value))"
  by (simp add: IntrusiveHashTable_insert_def isLinkedToHashTable_def unlinked_values_def
      allocate_default_def allocate_def isAllocated_def hashOf_def id_hash_def bucketOf_def
      table_at_def one_in_bucket_def one_value_def Let_def)

lemma insert_second: "IntrusiveHashTable_insert id_hash always one_value one_in_bucket 53 (Some 2)
    = Some (Inr (True, two_in_bucket, two_values))"
  by (simp add: IntrusiveHashTable_insert_def isLinkedToHashTable_def unlinked_values_def
      allocate_default_def allocate_def isAllocated_def hashOf_def id_hash_def bucketOf_def
      table_at_def one_in_bucket_def one_value_def two_in_bucket_def two_values_def Let_def)



lemma insert_low: "IntrusiveHashTable_insert low_hash always unlinked_values
     \<lparr>table = Some (replicate 11 None), bucketCount = 11, usedBuckets = 0, allowDupKeys = False\<rparr> 42 (Some 1)
    = Some (Inr (True, low_in_bucket, low_value))"
  by (simp add: IntrusiveHashTable_insert_def isLinkedToHashTable_def unlinked_values_def
      allocate_default_def allocate_def isAllocated_def hashOf_def low_hash_def bucketOf_def
      table_at_def low_in_bucket_def low_value_def Let_def)




section \<open>The claims about the intrusive hash table\<close>

lemma allocate_not_allocated:
  assumes "prime_nat p" "unat sizeHint \<le> p" "p < 2 ^ 63" "\<not> isAllocated t"
  defines "L \<equiv> (LEAST q. prime_nat q \<and> unat sizeHint \<le> q)"
  shows "allocate can_new sizeHint t =
           Some (if can_new L
                 then Inr (t\<lparr>bucketCount := of_nat L, table := Some (replicate L None)\<rparr>)
                 else Inl bad_alloc)"
    and "unat (of_nat L :: size_t) = L"
proof -
  note l = least_prime [OF assms(1,2), folded L_def]
  have L63: "L < 2 ^ 63" using l(3) assms(3) by simp
  then show u: "unat (of_nat L :: size_t) = L" by (intro unat_of_nat64) simp
  have "allocate_loop (of_nat (unat sizeHint)) = Some (of_nat L)"
    using l(1,2) L63 l(4) by (rule allocate_loop_run)
  then have "allocate_loop sizeHint = Some (of_nat L)" by simp
  then show "allocate can_new sizeHint t =
           Some (if can_new L
                 then Inr (t\<lparr>bucketCount := of_nat L, table := Some (replicate L None)\<rparr>)
                 else Inl bad_alloc)"
    using assms(4) u by (simp add: allocate_def)
qed

text \<open>
  C7, as the code has it. Let a prime \<open>p\<close> with \<open>sizeHint \<le> p < 2\<^sup>6\<^sup>3\<close> exist, and let \<open>L\<close>
  be the smallest prime that is at least \<open>sizeHint\<close>. On a table that is not allocated,
  \<^verbatim>\<open>allocate(sizeHint)\<close> returns; it fails when the memory for \<open>L\<close> buckets is not
  obtained, and otherwise the table has \<open>L\<close> buckets, all of them empty, and is allocated.
  On an allocated table every call of \<^verbatim>\<open>allocate\<close>, with any hint, returns the table
  as it is. The default hint is 2053.
\<close>

theorem allocate_smallest_prime:
  "(prime_nat p \<and> unat sizeHint \<le> p \<and> p < 2 ^ 63 \<and> \<not> isAllocated t \<longrightarrow>
      prime_nat (LEAST q. prime_nat q \<and> unat sizeHint \<le> q) \<and>
      unat sizeHint \<le> (LEAST q. prime_nat q \<and> unat sizeHint \<le> q) \<and>
      (\<forall>q. prime_nat q \<and> unat sizeHint \<le> q \<longrightarrow>
         (LEAST q. prime_nat q \<and> unat sizeHint \<le> q) \<le> q) \<and>
      (\<not> can_new (LEAST q. prime_nat q \<and> unat sizeHint \<le> q) \<longrightarrow>
         allocate can_new sizeHint t = Some (Inl bad_alloc)) \<and>
      (can_new (LEAST q. prime_nat q \<and> unat sizeHint \<le> q) \<longrightarrow>
         (\<exists>t'. allocate can_new sizeHint t = Some (Inr t') \<and>
               unat (getBucketCount t') = (LEAST q. prime_nat q \<and> unat sizeHint \<le> q) \<and>
               table t' = Some (replicate (LEAST q. prime_nat q \<and> unat sizeHint \<le> q) None) \<and>
               usedBuckets t' = usedBuckets t \<and> allowDupKeys t' = allowDupKeys t \<and>
               isAllocated t' \<and>
               (\<forall>can_new' h. allocate can_new' h t' = Some (Inr t'))))) \<and>
   (isAllocated t \<longrightarrow> allocate can_new sizeHint t = Some (Inr t)) \<and>
   allocate_default can_new t = allocate can_new 2053 t"
proof (intro conjI impI)
  let ?L = "LEAST q. prime_nat q \<and> unat sizeHint \<le> q"
  assume a: "prime_nat p \<and> unat sizeHint \<le> p \<and> p < 2 ^ 63 \<and> \<not> isAllocated t"
  then have h: "prime_nat p" "unat sizeHint \<le> p" "p < 2 ^ 63" and na: "\<not> isAllocated t"
    by simp_all
  note al = allocate_not_allocated [OF h na]
  show "prime_nat ?L" "unat sizeHint \<le> ?L"
    using least_prime(1,2) [OF h(1,2)] .
  show "\<forall>q. prime_nat q \<and> unat sizeHint \<le> q \<longrightarrow> ?L \<le> q"
    by (simp add: Least_le)
  {
    assume "\<not> can_new ?L"
    with al(1) [of can_new] show "allocate can_new sizeHint t = Some (Inl bad_alloc)" by simp
  }
  assume cn: "can_new ?L"
  let ?t = "t\<lparr>bucketCount := of_nat ?L, table := Some (replicate ?L None)\<rparr>"
  from al(1) [of can_new] cn
  have r: "allocate can_new sizeHint t = Some (Inr ?t)" by simp
  note u = al(2)
  have "1 < ?L" using least_prime(1) [OF h(1,2)] by (simp add: prime_nat_def)
  then have "of_nat ?L \<noteq> (0 :: size_t)" using u by (metis not_less_zero unat_0)
  then have ia: "isAllocated ?t" by (simp add: isAllocated_def)
  then have "\<forall>can_new' h. allocate can_new' h ?t = Some (Inr ?t)"
    by (simp add: allocate_def)
  with r u ia show "\<exists>t'. allocate can_new sizeHint t = Some (Inr t') \<and>
                 unat (getBucketCount t') = ?L \<and>
                 table t' = Some (replicate ?L None) \<and>
                 usedBuckets t' = usedBuckets t \<and> allowDupKeys t' = allowDupKeys t \<and>
                 isAllocated t' \<and>
                 (\<forall>can_new' h. allocate can_new' h t' = Some (Inr t'))"
    by (intro exI [of _ ?t]) (simp add: getBucketCount_def)
next
  assume "isAllocated t"
  then show "allocate can_new sizeHint t = Some (Inr t)" by (simp add: allocate_def)
next
  show "allocate_default can_new t = allocate can_new 2053 t"
    by (simp add: allocate_default_def DefaultCapacity_def)
qed

theorem allocate_smallest_prime_witness:
  "prime_nat 2053 \<and>
   (\<exists>t'. allocate_default always (new_IntrusiveHashTable False) = Some (Inr t') \<and>
         unat (getBucketCount t') = 2053 \<and> table t' = Some (replicate 2053 None) \<and>
         allocate always 7 t' = Some (Inr t'))"
proof -
  have "isPrime 2053 = Some True" by code_simp
  moreover have "isPrime 2053 = Some (prime_nat (unat (2053 :: size_t)))"
    by (rule isPrime_prime_nat) simp
  ultimately have p: "prime_nat 2053" by simp
  have h2: "unat (2053 :: size_t) \<le> 2053" by simp
  have h3: "(2053 :: nat) < 2 ^ 63" by simp
  have L: "(LEAST q. prime_nat q \<and> unat (2053 :: size_t) \<le> q) = 2053"
    using p by (intro Least_equality) simp_all
  have n: "\<not> isAllocated (new_IntrusiveHashTable False)"
    by (simp add: isAllocated_def new_IntrusiveHashTable_def)
  have c: "always 2053" by (simp add: always_def)
  note t = allocate_smallest_prime [of 2053 2053 "new_IntrusiveHashTable False" always, unfolded L]
  from t p h2 h3 n c obtain t' where
    t': "allocate always 2053 (new_IntrusiveHashTable False) = Some (Inr t')"
    "unat (getBucketCount t') = 2053" "table t' = Some (replicate 2053 None)"
    "\<forall>can_new' h. allocate can_new' h t' = Some (Inr t')"
    by blast
  from t have d: "allocate_default always (new_IntrusiveHashTable False)
      = allocate always 2053 (new_IntrusiveHashTable False)"
    by blast
  from t'(4) have "allocate always 7 t' = Some (Inr t')" by blast
  with t'(1,2,3) d p show ?thesis by metis
qed

text \<open>
  C7 as stated does not hold for every hint: for the largest \<^verbatim>\<open>size_t\<close> value the
  counter wraps around to 0 and the loop stops at 2, so the table gets two buckets.
\<close>

theorem allocate_wraps_around:
  "allocate always 18446744073709551615 (new_IntrusiveHashTable False)
     = Some (Inr \<lparr>table = Some [None, None], bucketCount = 2, usedBuckets = 0,
                  allowDupKeys = False\<rparr>) \<and>
   unat (18446744073709551615 :: size_t) = 18446744073709551615 \<and>
   (2 :: size_t) < 18446744073709551615"
  apply (intro conjI)
    apply code_simp
   apply simp
  apply simp
  done



end
